theory Spec2Isabelle
  imports Main "HOL-Library.Multiset" "HOL-Library.Product_Lexorder"
begin

section \<open>External merge sort: the model\<close>

text \<open>
  The program sorts the integers of a text file (one per line) with an external k-way
  merge sort: \<^verbatim>\<open>generate_runs\<close> cuts the input into sorted run files,
  \<^verbatim>\<open>read_blocks\<close> streams a run file in blocks of whole lines,
  \<^verbatim>\<open>merge_K_runs\<close> merges a batch of run files over a heap of run heads, and
  \<^verbatim>\<open>merge_runs\<close> repeats merge passes until one file is left, which it renames to
  the output.

  Conventions of the model.
  \<^item> Python integers are \<open>int\<close>; a text is a \<open>string\<close> of ASCII characters, so that
    character counts, byte counts and file offsets coincide.
  \<^item> The directory is a map from file names to file contents. The input file is given by
    the list of its lines (what iterating over the open file yields); it is taken to be
    none of the temporary files the program writes.
  \<^item> An exception is a value \<open>Inl e\<close>; the directory an aborted call leaves behind is
    not part of the result.
  \<^item> The \<^verbatim>\<open>while\<close> loop of \<^verbatim>\<open>merge_runs\<close> may run forever: it is a
    partial function into \<open>option\<close>, and \<open>None\<close> is the run that never returns.
  \<^item> \<^verbatim>\<open>heapq\<close> is modelled by what it implements, a priority queue whose pop returns
    the least entry; entries are pairs compared lexicographically, as Python compares
    tuples. An entry carries the index of its run and a run has at most one entry in the
    heap, so the least entry is unique.
  \<^item> CPython's configurable limit on the number of digits of a decimal conversion is
    not modelled.
\<close>

datatype error = ValueError | IndexError | StopIteration | ZeroDivisionError | FileNotFoundError

type_synonym fs = "string \<rightharpoonup> string"

subsection \<open>Text: \<^verbatim>\<open>str\<close>, \<^verbatim>\<open>int\<close>, \<^verbatim>\<open>strip\<close>, \<^verbatim>\<open>split\<close>, \<^verbatim>\<open>rfind\<close>\<close>

definition NL :: char where
  "NL = CHR 0x0A"

definition digit_char :: "nat \<Rightarrow> char" where
  "digit_char d = char_of (48 + d)"

fun str_nat :: "nat \<Rightarrow> string" where
  "str_nat n = (if n < 10 then [digit_char n] else str_nat (n div 10) @ [digit_char (n mod 10)])"

declare str_nat.simps [simp del]

text \<open>\<^verbatim>\<open>f"{number}"\<close>: the decimal numeral of an integer.\<close>

definition str_int :: "int \<Rightarrow> string" where
  "str_int i = (if i < 0 then CHR ''-'' # str_nat (nat (- i)) else str_nat (nat i))"

definition isspace :: "char \<Rightarrow> bool" where
  "isspace c = (c \<in> set [CHR 0x09, CHR 0x0A, CHR 0x0B, CHR 0x0C, CHR 0x0D,
                          CHR 0x1C, CHR 0x1D, CHR 0x1E, CHR 0x1F, CHR 0x20])"

definition strip :: "string \<Rightarrow> string" where
  "strip s = rev (dropWhile isspace (rev (dropWhile isspace s)))"

definition isdigit :: "char \<Rightarrow> bool" where
  "isdigit c = (48 \<le> (of_char c :: nat) \<and> (of_char c :: nat) \<le> 57)"

definition digit_val :: "char \<Rightarrow> nat" where
  "digit_val c = of_char c - 48"

text \<open>Digits, with single underscores allowed between two digits, as \<^verbatim>\<open>int\<close> reads them.\<close>

fun digits_value :: "nat \<Rightarrow> string \<Rightarrow> error + nat" where
  "digits_value acc [] = Inr acc"
| "digits_value acc (c # cs) =
     (if isdigit c then digits_value (10 * acc + digit_val c) cs
      else if c = CHR ''_'' \<and> cs \<noteq> [] \<and> isdigit (hd cs) then digits_value acc cs
      else Inl ValueError)"

definition parse_nat :: "string \<Rightarrow> error + nat" where
  "parse_nat s = (if s \<noteq> [] \<and> isdigit (hd s) then digits_value 0 s else Inl ValueError)"

text \<open>\<^verbatim>\<open>int(s)\<close>: surrounding whitespace is dropped, then an optional sign and the digits.\<close>

definition py_int :: "string \<Rightarrow> error + int" where
  "py_int s =
     (case strip s of
        [] \<Rightarrow> Inl ValueError
      | c # r \<Rightarrow>
          if c = CHR ''-'' then (case parse_nat r of Inl e \<Rightarrow> Inl e | Inr n \<Rightarrow> Inr (- int n))
          else if c = CHR ''+'' then (case parse_nat r of Inl e \<Rightarrow> Inl e | Inr n \<Rightarrow> Inr (int n))
          else (case parse_nat (c # r) of Inl e \<Rightarrow> Inl e | Inr n \<Rightarrow> Inr (int n)))"

text \<open>\<^verbatim>\<open>s.split(c)\<close>: the pieces between the separators, the empty ones included.\<close>

fun split_on :: "char \<Rightarrow> string \<Rightarrow> string list" where
  "split_on c [] = [[]]"
| "split_on c (x # xs) =
     (if x = c then [] # split_on c xs
      else (x # hd (split_on c xs)) # tl (split_on c xs))"

text \<open>\<^verbatim>\<open>s.rfind(c)\<close>: the highest index of \<open>c\<close> in \<open>s\<close>, or \<open>-1\<close>.\<close>

fun rfind :: "char \<Rightarrow> string \<Rightarrow> int" where
  "rfind c [] = - 1"
| "rfind c (x # xs) =
     (if 0 \<le> rfind c xs then rfind c xs + 1 else if x = c then 0 else - 1)"

subsection \<open>Run generation\<close>

definition NUMBER_SIZE :: int where
  "NUMBER_SIZE = 40"

text \<open>
  The loop of \<^verbatim>\<open>read_numbers_and_divide\<close> over the lines of the input, with its
  variables \<open>run\<close> and \<open>current_bytes\<close>; the result is the list of the runs it yields.
\<close>

fun divide_loop :: "int \<Rightarrow> string list \<Rightarrow> int list \<Rightarrow> int \<Rightarrow> error + int list list" where
  "divide_loop memory_limit [] run current_bytes = Inr (if run \<noteq> [] then [run] else [])"
| "divide_loop memory_limit (line # rest) run current_bytes =
     (let flush = (current_bytes + NUMBER_SIZE > memory_limit \<and> run \<noteq> []);
          run1 = (if flush then [] else run);
          bytes1 = (if flush then 0 else current_bytes)
      in case py_int (strip line) of
           Inl e \<Rightarrow> Inl e
         | Inr number \<Rightarrow>
             (case divide_loop memory_limit rest (run1 @ [number]) (bytes1 + NUMBER_SIZE) of
                Inl e \<Rightarrow> Inl e
              | Inr runs \<Rightarrow> Inr (if flush then run # runs else runs)))"

definition read_numbers_and_divide :: "string list \<Rightarrow> int \<Rightarrow> error + int list list" where
  "read_numbers_and_divide lines memory_limit = divide_loop memory_limit lines [] 0"

text \<open>The text \<^verbatim>\<open>create_run_file\<close> and \<^verbatim>\<open>merge_K_runs\<close> write: one number per line.\<close>

fun write_lines :: "int list \<Rightarrow> string" where
  "write_lines [] = []"
| "write_lines (number # rest) = str_int number @ NL # write_lines rest"

definition run_filename :: "int \<Rightarrow> string" where
  "run_filename run_number = ''run'' @ str_int run_number @ ''.txt''"

definition create_run_file :: "int list \<Rightarrow> int \<Rightarrow> fs \<Rightarrow> string \<times> fs" where
  "create_run_file sorted_run run_number files =
     (run_filename run_number, files(run_filename run_number \<mapsto> write_lines sorted_run))"

fun generate_runs_loop :: "int list list \<Rightarrow> int \<Rightarrow> fs \<Rightarrow> string list \<times> fs" where
  "generate_runs_loop [] index files = ([], files)"
| "generate_runs_loop (run # rest) index files =
     (let (run_file, files1) = create_run_file (sort run) index files;
          (runs, files2) = generate_runs_loop rest (index + 1) files1
      in (run_file # runs, files2))"

definition generate_runs :: "string list \<Rightarrow> int \<Rightarrow> fs \<Rightarrow> error + (string list \<times> fs)" where
  "generate_runs lines memory_limit files =
     (case read_numbers_and_divide lines memory_limit of
        Inl e \<Rightarrow> Inl e
      | Inr rs \<Rightarrow> Inr (generate_runs_loop rs 1 files))"

subsection \<open>The block reader\<close>

text \<open>
  A reader is the generator \<^verbatim>\<open>read_blocks(file_path, block_size)\<close> between two
  \<^verbatim>\<open>next\<close> calls: the contents of its file and the cursor. \<^verbatim>\<open>file.read(n)\<close>
  returns at most \<open>n\<close> characters from the cursor on, and all the rest for a
  negative \<open>n\<close>.
\<close>

type_synonym reader = "string \<times> nat"

definition file_read :: "string \<Rightarrow> nat \<Rightarrow> int \<Rightarrow> string" where
  "file_read content pos n =
     (if n < 0 then drop pos content else take (nat n) (drop pos content))"

text \<open>
  One \<^verbatim>\<open>next(reader)\<close>: \<open>None\<close> when the generator is exhausted (the read returned
  nothing), else the block it yields and the reader after the yield.
\<close>

definition read_blocks_next :: "int \<Rightarrow> reader \<Rightarrow> (string \<times> reader) option" where
  "read_blocks_next block_size r =
     (let content = fst r; pos = snd r;
          block = file_read content pos block_size;
          tell = pos + length block
      in if block = [] then None
         else if last block \<noteq> NL then
           (let last_newline = rfind NL block
            in Some (take (nat (last_newline + 1)) block,
                     (content, nat (int tell - (int (length block) - last_newline - 1)))))
         else Some (block, (content, tell)))"

text \<open>All the blocks a reader yields from a state on; \<open>None\<close> when it yields forever.\<close>

partial_function (option) read_blocks :: "int \<Rightarrow> reader \<Rightarrow> string list option" where
  "read_blocks block_size r =
     (case read_blocks_next block_size r of
        None \<Rightarrow> Some []
      | Some (block, r') \<Rightarrow>
          Option.bind (read_blocks block_size r') (\<lambda>blocks. Some (block # blocks)))"

declare read_blocks.simps [code]

subsection \<open>The k-way merger\<close>

text \<open>\<^verbatim>\<open>[int(line) for line in lines if line.strip()]\<close>\<close>

fun parse_lines :: "string list \<Rightarrow> error + int list" where
  "parse_lines [] = Inr []"
| "parse_lines (line # rest) =
     (if strip line = [] then parse_lines rest
      else case py_int line of
             Inl e \<Rightarrow> Inl e
           | Inr n \<Rightarrow> (case parse_lines rest of Inl e \<Rightarrow> Inl e | Inr ns \<Rightarrow> Inr (n # ns)))"

definition decode_block :: "string \<Rightarrow> error + int list" where
  "decode_block block = parse_lines (split_on NL block)"

text \<open>
  The heap is kept as the sorted list of its entries: \<^verbatim>\<open>heapq.heappush\<close> inserts an
  entry, \<^verbatim>\<open>heapq.heappop\<close> takes the head of the list, the least entry.
\<close>

definition heappush :: "(int \<times> nat) list \<Rightarrow> int \<times> nat \<Rightarrow> (int \<times> nat) list" where
  "heappush h e = insort e h"

text \<open>
  The variables of \<^verbatim>\<open>merge_K_runs\<close>. \<open>emitted\<close> is the sequence of heap entries
  popped so far; the first components are the numbers written to the output file.
\<close>

record merge_state =
  readers :: "reader list"
  current_blocks :: "int list list"
  heap :: "(int \<times> nat) list"
  emitted :: "(int \<times> nat) list"

text \<open>The seeding loop: the first block of every run file, its first number pushed.\<close>

fun seed_loop :: "fs \<Rightarrow> int \<Rightarrow> string list \<Rightarrow> nat \<Rightarrow> merge_state \<Rightarrow> error + merge_state" where
  "seed_loop files block_size [] index st = Inr st"
| "seed_loop files block_size (run_file # rest) index st =
     (case files run_file of
        None \<Rightarrow> Inl FileNotFoundError
      | Some content \<Rightarrow>
          (case read_blocks_next block_size (content, 0) of
             None \<Rightarrow> Inl StopIteration
           | Some (block, r') \<Rightarrow>
               (case decode_block block of
                  Inl e \<Rightarrow> Inl e
                | Inr lines \<Rightarrow>
                    (case lines of
                       [] \<Rightarrow> Inl IndexError
                     | x # xs \<Rightarrow>
                         seed_loop files block_size rest (index + 1)
                           (st\<lparr>readers := readers st @ [r'],
                               current_blocks := current_blocks st @ [xs],
                               heap := heappush (heap st) (x, index)\<rparr>)))))"

text \<open>One turn of the \<^verbatim>\<open>while heap:\<close> loop, for a heap that is not empty.\<close>

definition merge_step :: "int \<Rightarrow> merge_state \<Rightarrow> error + merge_state" where
  "merge_step block_size st =
     (case heap st of
        [] \<Rightarrow> Inl IndexError
      | (smallest, run_index) # h \<Rightarrow>
          (let st1 = st\<lparr>heap := h, emitted := emitted st @ [(smallest, run_index)]\<rparr>
           in if length (current_blocks st) \<le> run_index then Inl IndexError
              else (case current_blocks st ! run_index of
                 x # xs \<Rightarrow>
                   Inr (st1\<lparr>current_blocks := (current_blocks st)[run_index := xs],
                            heap := heappush h (x, run_index)\<rparr>)
               | [] \<Rightarrow>
                   if length (readers st) \<le> run_index then Inl IndexError
                   else (case read_blocks_next block_size (readers st ! run_index) of
                      None \<Rightarrow> Inr st1
                    | Some (block, r') \<Rightarrow>
                        (case decode_block block of
                           Inl e \<Rightarrow> Inl e
                         | Inr lines \<Rightarrow>
                             (case lines of
                                [] \<Rightarrow> Inl IndexError
                              | x # xs \<Rightarrow>
                                  Inr (st1\<lparr>readers := (readers st)[run_index := r'],
                                           current_blocks := (current_blocks st)[run_index := xs],
                                           heap := heappush h (x, run_index)\<rparr>)))))))"

definition merge_measure :: "merge_state \<Rightarrow> nat" where
  "merge_measure st =
     2 * sum_list (map (\<lambda>r. length (fst r) - snd r) (readers st))
       + sum_list (map length (current_blocks st)) + length (heap st)"

function merge_loop :: "int \<Rightarrow> merge_state \<Rightarrow> error + (int \<times> nat) list" where
  "merge_loop block_size st =
     (if heap st = [] then Inr (emitted st)
      else case merge_step block_size st of
             Inl e \<Rightarrow> Inl e
           | Inr st' \<Rightarrow> merge_loop block_size st')"
  by pat_completeness auto

text \<open>
  The loop terminates: a turn either takes a number from a decoded block, or moves the
  cursor of a reader forward by a block that holds at least as many characters as
  numbers, or leaves the heap one entry shorter.
\<close>

lemma rfind_bounds: "- 1 \<le> rfind c s \<and> rfind c s < int (length s)"
  by (induction s) auto

lemma read_blocks_next_pos:
  assumes "read_blocks_next block_size (content, pos) = Some (block, r')"
  shows "r' = (content, pos + length block) \<and> pos + length block \<le> length content"
proof -
  define raw where "raw = file_read content pos block_size"
  have raw_len: "pos + length raw \<le> length content \<or> raw = []"
    by (auto simp: raw_def file_read_def)
  from assms have ne: "raw \<noteq> []"
    by (auto simp: read_blocks_next_def Let_def raw_def split: if_splits)
  with raw_len have le: "pos + length raw \<le> length content" by simp
  have rb: "- 1 \<le> rfind NL raw" "rfind NL raw < int (length raw)"
    using rfind_bounds [of NL raw] by auto
  show ?thesis
  proof (cases "last raw = NL")
    case True
    with assms ne le show ?thesis
      by (auto simp: read_blocks_next_def Let_def raw_def [symmetric])
  next
    case False
    with assms ne have b: "block = take (nat (rfind NL raw + 1)) raw"
      and r: "r' = (content, nat (int (pos + length raw) - (int (length raw) - rfind NL raw - 1)))"
      by (auto simp: read_blocks_next_def Let_def raw_def [symmetric])
    from b rb have lb: "length block = nat (rfind NL raw + 1)" by auto
    with r rb le show ?thesis by auto
  qed
qed

lemma split_on_nonempty: "split_on c s \<noteq> []"
  by (induction s) auto

lemma split_on_size: "sum_list (map length (split_on c s)) + length (split_on c s) = Suc (length s)"
proof (induction s)
  case Nil
  then show ?case by simp
next
  case (Cons x xs)
  obtain p ps where r: "split_on c xs = p # ps"
    using split_on_nonempty [of c xs] by (cases "split_on c xs") auto
  with Cons show ?case by auto
qed

lemma count_nonempty_le: "length (filter (\<lambda>l. l \<noteq> []) ls) \<le> sum_list (map length ls)"
proof (induction ls)
  case Nil
  then show ?case by simp
next
  case (Cons a ls)
  then show ?case by (cases a) auto
qed

lemma strip_Nil [simp]: "strip [] = []"
  by (simp add: strip_def)

lemma parse_lines_length:
  "parse_lines ls = Inr ns \<Longrightarrow> length ns \<le> length (filter (\<lambda>l. l \<noteq> []) ls)"
proof (induction ls arbitrary: ns)
  case Nil
  then show ?case by simp
next
  case (Cons l ls)
  show ?case
  proof (cases "strip l = []")
    case True
    with Cons show ?thesis by (auto intro: le_SucI)
  next
    case False
    then have "l \<noteq> []" by auto
    with False Cons show ?thesis
      by (auto split: sum.splits)
  qed
qed

lemma decode_block_length: "decode_block block = Inr ns \<Longrightarrow> length ns \<le> length block"
proof -
  assume "decode_block block = Inr ns"
  then have "length ns \<le> length (filter (\<lambda>l. l \<noteq> []) (split_on NL block))"
    unfolding decode_block_def by (rule parse_lines_length)
  also have "\<dots> \<le> sum_list (map length (split_on NL block))"
    by (rule count_nonempty_le)
  also have "\<dots> \<le> length block"
    using split_on_size [of NL block] split_on_nonempty [of NL block]
    by (cases "split_on NL block") auto
  finally show ?thesis .
qed

lemma sum_list_map_update:
  "i < length xs \<Longrightarrow> sum_list (map f (xs[i := y])) + f (xs ! i) = sum_list (map f xs) + (f y :: nat)"
proof (induction xs arbitrary: i)
  case Nil
  then show ?case by simp
next
  case (Cons x xs)
  then show ?case by (cases i) auto
qed

lemma merge_step_measure:
  assumes "merge_step block_size st = Inr st'"
  shows "merge_measure st' < merge_measure st"
proof -
  from assms obtain smallest run_index h where hp: "heap st = (smallest, run_index) # h"
    by (auto simp: merge_step_def split: list.splits)
  from assms hp have ri: "run_index < length (current_blocks st)"
    by (auto simp: merge_step_def Let_def split: if_splits)
  have lh [simp]: "length (heappush h e) = Suc (length h)" for e
    by (simp add: heappush_def)
  show ?thesis
  proof (cases "current_blocks st ! run_index")
    case (Cons x xs)
    with assms hp ri have st': "st' = st\<lparr>heap := heappush h (x, run_index),
        emitted := emitted st @ [(smallest, run_index)],
        current_blocks := (current_blocks st)[run_index := xs]\<rparr>"
      by (auto simp: merge_step_def Let_def)
    from sum_list_map_update [OF ri, of length xs] Cons
    have "sum_list (map length ((current_blocks st)[run_index := xs])) + Suc (length xs)
        = sum_list (map length (current_blocks st)) + length xs" by simp
    then show ?thesis
      by (simp add: st' merge_measure_def hp)
  next
    case Nil
    with assms hp ri have rr: "run_index < length (readers st)"
      by (auto simp: merge_step_def Let_def split: if_splits)
    show ?thesis
    proof (cases "read_blocks_next block_size (readers st ! run_index)")
      case None
      with assms hp ri rr Nil have "st' = st\<lparr>heap := h, emitted := emitted st @ [(smallest, run_index)]\<rparr>"
        by (auto simp: merge_step_def Let_def)
      then show ?thesis by (simp add: merge_measure_def hp)
    next
      case (Some a)
      obtain block r' where a: "a = (block, r')" by (cases a)
      obtain content pos where rd: "readers st ! run_index = (content, pos)"
        by (cases "readers st ! run_index")
      from assms hp ri rr Nil Some a obtain x xs where
        dec: "decode_block block = Inr (x # xs)" and
        st': "st' = st\<lparr>heap := heappush h (x, run_index),
           emitted := emitted st @ [(smallest, run_index)],
           readers := (readers st)[run_index := r'],
           current_blocks := (current_blocks st)[run_index := xs]\<rparr>"
        by (auto simp: merge_step_def Let_def split: sum.splits list.splits)
      from Some a rd have r': "r' = (content, pos + length block)"
        and le: "pos + length block \<le> length content"
        using read_blocks_next_pos [of block_size content pos block r'] by auto
      from decode_block_length [OF dec] have lb: "Suc (length xs) \<le> length block" by simp
      from sum_list_map_update [OF ri, of length xs] Nil
      have c: "sum_list (map length ((current_blocks st)[run_index := xs]))
        = sum_list (map length (current_blocks st)) + length xs" by simp
      from sum_list_map_update [OF rr, of "\<lambda>r. length (fst r) - snd r" r'] rd r'
      have d: "sum_list (map (\<lambda>r. length (fst r) - snd r) ((readers st)[run_index := r']))
           + (length content - pos)
        = sum_list (map (\<lambda>r. length (fst r) - snd r) (readers st))
           + (length content - (pos + length block))" by simp
      from c d lb le show ?thesis
        by (simp add: st' merge_measure_def hp)
    qed
  qed
qed

termination merge_loop
  by (relation "measure (\<lambda>(block_size, st). merge_measure st)") (auto simp: merge_step_measure)

text \<open>
  The heap entries \<^verbatim>\<open>merge_K_runs\<close> pops, in order: each is a number with the index of
  the run it came from. The run files are opened by the first \<^verbatim>\<open>next\<close> of their
  readers, in the seeding loop, and the output file after it; the output file is taken
  to be none of the run files.
\<close>

definition merge_trace :: "fs \<Rightarrow> string list \<Rightarrow> int \<Rightarrow> error + (int \<times> nat) list" where
  "merge_trace files run_files block_size =
     (case seed_loop files block_size run_files 0
             \<lparr>readers = [], current_blocks = [], heap = [], emitted = []\<rparr> of
        Inl e \<Rightarrow> Inl e
      | Inr st \<Rightarrow> merge_loop block_size st)"

definition merged_filename :: "string \<Rightarrow> string" where
  "merged_filename identifier = ''merged_run_'' @ identifier @ ''.txt''"

definition merge_K_runs :: "string list \<Rightarrow> int \<Rightarrow> string \<Rightarrow> fs \<Rightarrow> error + (string \<times> fs)" where
  "merge_K_runs run_files block_size identifier files =
     (case merge_trace files run_files block_size of
        Inl e \<Rightarrow> Inl e
      | Inr popped \<Rightarrow>
          Inr (merged_filename identifier,
               files(merged_filename identifier \<mapsto> write_lines (map fst popped))))"

subsection \<open>The merge scheduler\<close>

text \<open>\<^verbatim>\<open>range(0, n, K)\<close>: an error for the step 0, empty for a negative step.\<close>

definition py_range :: "nat \<Rightarrow> int \<Rightarrow> error + nat list" where
  "py_range n K =
     (if K = 0 then Inl ValueError
      else if K < 0 then Inr []
      else Inr (map (\<lambda>j. j * nat K) [0..<(n + nat K - 1) div nat K]))"

text \<open>
  What one turn of the \<^verbatim>\<open>for\<close> loop passes to \<^verbatim>\<open>merge_K_runs\<close>: the slice
  \<^verbatim>\<open>runs[i:i + K]\<close> and the identifier \<^verbatim>\<open>f"{iteration}_{i // K + 1}"\<close>.
\<close>

definition batch_identifier :: "int \<Rightarrow> int \<Rightarrow> string" where
  "batch_identifier iteration j = str_int iteration @ ''_'' @ str_int j"

definition batch :: "string list \<Rightarrow> int \<Rightarrow> int \<Rightarrow> nat \<Rightarrow> string list \<times> string" where
  "batch runs K iteration i =
     (take (nat K) (drop i runs), batch_identifier iteration (int i div K + 1))"

fun merge_batches :: "int \<Rightarrow> (string list \<times> string) list \<Rightarrow> fs \<Rightarrow> error + (string list \<times> fs)" where
  "merge_batches block_size [] files = Inr ([], files)"
| "merge_batches block_size ((current_runs, identifier) # rest) files =
     (case merge_K_runs current_runs block_size identifier files of
        Inl e \<Rightarrow> Inl e
      | Inr (merged_run, files1) \<Rightarrow>
          (case merge_batches block_size rest files1 of
             Inl e \<Rightarrow> Inl e
           | Inr (new_runs, files2) \<Rightarrow> Inr (merged_run # new_runs, files2)))"

text \<open>\<^verbatim>\<open>for run in runs: os.remove(run)\<close>\<close>

fun remove_all :: "string list \<Rightarrow> fs \<Rightarrow> error + fs" where
  "remove_all [] files = Inr files"
| "remove_all (run # rest) files =
     (if files run = None then Inl FileNotFoundError else remove_all rest (files(run := None)))"

text \<open>The body of the \<^verbatim>\<open>while\<close> loop: one merge pass over the frontier.\<close>

definition merge_pass :: "int \<Rightarrow> int \<Rightarrow> string list \<Rightarrow> int \<Rightarrow> fs \<Rightarrow> error + (string list \<times> fs)" where
  "merge_pass K block_size runs iteration files =
     (case py_range (length runs) K of
        Inl e \<Rightarrow> Inl e
      | Inr starts \<Rightarrow>
          (case merge_batches block_size (map (batch runs K iteration) starts) files of
             Inl e \<Rightarrow> Inl e
           | Inr (new_runs, files1) \<Rightarrow>
               (case remove_all runs files1 of
                  Inl e \<Rightarrow> Inl e
                | Inr files2 \<Rightarrow> Inr (new_runs, files2))))"

text \<open>
  The \<^verbatim>\<open>while len(runs) > 1\<close> loop. It returns its variables at the exit; the
  counter \<open>iteration\<close> starts at 1 and is one more than the number of passes made.
\<close>

partial_function (option) merge_runs_loop ::
  "int \<Rightarrow> int \<Rightarrow> string list \<Rightarrow> int \<Rightarrow> fs \<Rightarrow> (error + (string list \<times> int \<times> fs)) option" where
  "merge_runs_loop K block_size runs iteration files =
     (if length runs > 1 then
        (case merge_pass K block_size runs iteration files of
           Inl e \<Rightarrow> Some (Inl e)
         | Inr (new_runs, files1) \<Rightarrow> merge_runs_loop K block_size new_runs (iteration + 1) files1)
      else Some (Inr (runs, iteration, files)))"

declare merge_runs_loop.simps [code]

text \<open>\<^verbatim>\<open>os.rename(src, dst)\<close> replaces an existing \<open>dst\<close>.\<close>

definition os_rename :: "string \<Rightarrow> string \<Rightarrow> fs \<Rightarrow> error + fs" where
  "os_rename src dst files =
     (case files src of
        None \<Rightarrow> Inl FileNotFoundError
      | Some content \<Rightarrow> Inr ((files(src := None))(dst \<mapsto> content)))"

definition merge_runs :: "string list \<Rightarrow> string \<Rightarrow> int \<Rightarrow> int \<Rightarrow> fs \<Rightarrow> (error + fs) option" where
  "merge_runs runs output_file_path memory_limit block_size files =
     (if block_size = 0 then Some (Inl ZeroDivisionError)
      else (case merge_runs_loop (memory_limit div block_size) block_size runs 1 files of
              None \<Rightarrow> None
            | Some (Inl e) \<Rightarrow> Some (Inl e)
            | Some (Inr (runs1, iteration, files1)) \<Rightarrow>
                (case runs1 of
                   [] \<Rightarrow> Some (Inl IndexError)
                 | run # _ \<Rightarrow> Some (os_rename run output_file_path files1))))"

definition external_merge_sort :: "string list \<Rightarrow> int \<Rightarrow> int \<Rightarrow> fs \<Rightarrow> (error + fs) option" where
  "external_merge_sort lines memory_limit block_size files =
     (let first_limit = memory_limit div 3
      in case generate_runs lines first_limit files of
           Inl e \<Rightarrow> Some (Inl e)
         | Inr (runs, files1) \<Rightarrow> merge_runs runs ''output2.txt'' memory_limit block_size files1)"

subsection \<open>Hypotheses of the theorems\<close>

text \<open>
  The line of a number, its newline included, is no longer than a block (a read with a
  negative size returns the whole rest of the file).
\<close>

definition fits :: "int \<Rightarrow> int \<Rightarrow> bool" where
  "fits block_size number = (block_size < 0 \<or> int (length (str_int number)) < block_size)"

text \<open>The numbers of run \<open>i\<close>, each tagged with the index of the run.\<close>

definition tagged :: "nat \<Rightarrow> int list \<Rightarrow> (int \<times> nat) multiset" where
  "tagged i xs = mset (map (\<lambda>x. (x, i)) xs)"

text \<open>
  The invariant of the merge loop over what is still to come from each run (\<open>pend i\<close>:
  the decoded block of run \<open>i\<close> and what its reader has not read), the heap and the
  entries popped so far.
\<close>

definition merge_abs ::
  "int list list \<Rightarrow> (nat \<Rightarrow> int list) \<Rightarrow> (int \<times> nat) list \<Rightarrow> (int \<times> nat) list \<Rightarrow> bool" where
  "merge_abs xss pend hp em \<longleftrightarrow>
     (\<forall>i<length xss. sorted (pend i)) \<and>
     sorted hp \<and> distinct (map snd hp) \<and>
     (\<forall>(v, i)\<in>set hp. i < length xss \<and> (\<forall>x\<in>set (pend i). v \<le> x)) \<and>
     (\<forall>i<length xss. i \<notin> snd ` set hp \<longrightarrow> pend i = []) \<and>
     sorted em \<and> (\<forall>e\<in>set em. \<forall>h\<in>set hp. e \<le> h) \<and>
     mset em + mset hp + (\<Sum>i<length xss. tagged i (pend i)) = (\<Sum>i<length xss. tagged i (xss ! i))"

text \<open>
  The same for a state of the merger: reader \<open>i\<close> stands at the start of a line and
  \<open>rests ! i\<close> are the numbers behind its cursor.
\<close>

definition merge_inv :: "int list list \<Rightarrow> int list list \<Rightarrow> merge_state \<Rightarrow> bool" where
  "merge_inv xss rests st \<longleftrightarrow>
     length rests = length xss \<and> length (readers st) = length xss \<and>
     length (current_blocks st) = length xss \<and>
     (\<forall>i<length xss. drop (snd (readers st ! i)) (fst (readers st ! i)) = write_lines (rests ! i) \<and>
        set (rests ! i) \<subseteq> set (xss ! i)) \<and>
     merge_abs xss (\<lambda>i. current_blocks st ! i @ rests ! i) (heap st) (emitted st)"

text \<open>Every line of every run, newline included, is no longer than a block.\<close>

definition all_fit :: "int \<Rightarrow> int list list \<Rightarrow> bool" where
  "all_fit block_size xss = (\<forall>xs\<in>set xss. \<forall>x\<in>set xs. fits block_size x)"

text \<open>A run file: the text of a sorted, non-empty list of numbers.\<close>

definition run_file_of :: "fs \<Rightarrow> string \<Rightarrow> int list \<Rightarrow> bool" where
  "run_file_of files name xs \<longleftrightarrow> files name = Some (write_lines xs) \<and> sorted xs \<and> xs \<noteq> []"

text \<open>
  The frontier of the scheduler before pass \<open>iteration\<close>: distinct run files, none
  of them named like an output of this or a later pass.
\<close>

definition frontier :: "fs \<Rightarrow> string list \<Rightarrow> int list list \<Rightarrow> int \<Rightarrow> bool" where
  "frontier files runs xss iteration \<longleftrightarrow>
     list_all2 (run_file_of files) runs xss \<and> distinct runs \<and>
     (\<forall>name\<in>set runs. \<forall>it j. iteration \<le> it \<longrightarrow> name \<noteq> merged_filename (batch_identifier it j))"

text \<open>The size bound of a generated run: within the budget, or a single number.\<close>

definition run_bound :: "int \<Rightarrow> int list \<Rightarrow> bool" where
  "run_bound memory_limit run \<longleftrightarrow>
     NUMBER_SIZE * int (length run) \<le> memory_limit \<or> length run = 1"

text \<open>What \<^verbatim>\<open>int(line.strip())\<close> gives on each line of the input.\<close>

definition parse_input :: "string list \<Rightarrow> (error + int) list" where
  "parse_input lines = map (\<lambda>line. py_int (strip line)) lines"

text \<open>
  The states of the \<^verbatim>\<open>while\<close> loop of \<^verbatim>\<open>merge_runs\<close> (the run list, the
  counter and the directory) that follow a state by successful passes, all of them
  made with the fan-in \<open>K\<close>.
\<close>

inductive passes :: "int \<Rightarrow> int \<Rightarrow> string list \<times> int \<times> fs \<Rightarrow> string list \<times> int \<times> fs \<Rightarrow> bool"
  for K block_size where
  passes_refl: "passes K block_size st st"
| passes_step: "1 < length runs \<Longrightarrow>
     merge_pass K block_size runs iteration files = Inr (new_runs, files1) \<Longrightarrow>
     passes K block_size (new_runs, iteration + 1, files1) st \<Longrightarrow>
     passes K block_size (runs, iteration, files) st"

code_pred passes .

text \<open>A directory with two run files, for the examples.\<close>

definition two_runs :: fs where
  "two_runs = [run_filename 1 \<mapsto> write_lines [3, 5], run_filename 2 \<mapsto> write_lines [3]]"

section \<open>Properties\<close>

subsection \<open>Numerals\<close>

lemma of_char_NL: "(of_char NL :: nat) = 10"
  by (simp add: NL_def)

lemma isdigit_digit_char: "d < 10 \<Longrightarrow> isdigit (digit_char d)"
  by (simp add: isdigit_def digit_char_def)

lemma digit_val_digit_char: "d < 10 \<Longrightarrow> digit_val (digit_char d) = d"
  by (simp add: digit_val_def digit_char_def)

lemma isdigit_not_special:
  assumes "isdigit c"
  shows "c \<noteq> NL" "\<not> isspace c" "c \<noteq> CHR ''-''" "c \<noteq> CHR ''+''"
proof -
  from assms have r: "48 \<le> (of_char c :: nat)" by (simp add: isdigit_def)
  show "c \<noteq> NL" using r of_char_NL by auto
  show "\<not> isspace c" using r by (auto simp: isspace_def)
  show "c \<noteq> CHR ''-''" using r by auto
  show "c \<noteq> CHR ''+''" using r by auto
qed

lemma str_nat_digits: "list_all isdigit (str_nat n)"
proof (induction n rule: str_nat.induct)
  case (1 n)
  show ?case
  proof (cases "n < 10")
    case True
    then show ?thesis by (subst str_nat.simps) (simp add: isdigit_digit_char)
  next
    case False
    with 1 show ?thesis by (subst str_nat.simps) (simp add: isdigit_digit_char)
  qed
qed

lemma str_nat_nonempty: "str_nat n \<noteq> []"
  by (subst str_nat.simps) simp

lemma digits_value_digits:
  "list_all isdigit s \<Longrightarrow> digits_value acc s = Inr (foldl (\<lambda>a c. 10 * a + digit_val c) acc s)"
  by (induction s arbitrary: acc) auto

lemma foldl_str_nat: "foldl (\<lambda>a c. 10 * a + digit_val c) 0 (str_nat n) = n"
proof (induction n rule: str_nat.induct)
  case (1 n)
  show ?case
  proof (cases "n < 10")
    case True
    then show ?thesis by (subst str_nat.simps) (simp add: digit_val_digit_char)
  next
    case False
    with 1 show ?thesis by (subst str_nat.simps) (simp add: digit_val_digit_char)
  qed
qed

lemma parse_nat_str_nat: "parse_nat (str_nat n) = Inr n"
proof -
  have "isdigit (hd (str_nat n))"
    using str_nat_digits [of n] str_nat_nonempty [of n] by (cases "str_nat n") auto
  then show ?thesis
    by (simp add: parse_nat_def str_nat_nonempty digits_value_digits str_nat_digits foldl_str_nat)
qed

lemma dropWhile_none: "\<forall>c\<in>set s. \<not> P c \<Longrightarrow> dropWhile P s = s"
  by (cases s) auto

lemma strip_id: "\<forall>c\<in>set s. \<not> isspace c \<Longrightarrow> strip s = s"
  by (simp add: strip_def dropWhile_none)

lemma str_int_chars: "c \<in> set (str_int i) \<Longrightarrow> c \<noteq> NL \<and> \<not> isspace c"
proof -
  assume c: "c \<in> set (str_int i)"
  have m: "CHR ''-'' \<noteq> NL \<and> \<not> isspace (CHR ''-'')"
    by (simp add: NL_def isspace_def)
  have "\<And>n. c \<in> set (str_nat n) \<Longrightarrow> c \<noteq> NL \<and> \<not> isspace c"
    using str_nat_digits isdigit_not_special by (auto simp: list_all_iff)
  with c m show ?thesis
    by (auto simp: str_int_def split: if_splits)
qed

lemma str_int_nonempty: "str_int i \<noteq> []"
  by (simp add: str_int_def str_nat_nonempty)

lemma strip_str_int: "strip (str_int i) = str_int i"
  by (rule strip_id) (auto dest: str_int_chars)

lemma NL_notin_str_int: "NL \<notin> set (str_int i)"
  using str_int_chars by blast

lemma py_int_str_int: "py_int (str_int i) = Inr i"
proof (cases "i < 0")
  case True
  then show ?thesis
    by (simp add: py_int_def strip_str_int) (simp add: str_int_def parse_nat_str_nat)
next
  case False
  obtain c r where cr: "str_nat (nat i) = c # r"
    using str_nat_nonempty [of "nat i"] by (cases "str_nat (nat i)") auto
  have "isdigit c" using str_nat_digits [of "nat i"] cr by simp
  then have "c \<noteq> CHR ''-''" "c \<noteq> CHR ''+''" by (auto dest: isdigit_not_special)
  moreover have "parse_nat (c # r) = Inr (nat i)"
    using parse_nat_str_nat [of "nat i"] cr by simp
  moreover have s: "str_int i = c # r" using False cr by (simp add: str_int_def)
  moreover have "strip (c # r) = c # r" using strip_str_int [of i] s by simp
  ultimately show ?thesis using False
    by (simp add: py_int_def)
qed

lemma str_int_inj: "str_int i = str_int j \<Longrightarrow> i = j"
  by (metis py_int_str_int sum.inject(2))

subsection \<open>Run texts\<close>

lemma write_lines_Cons: "write_lines (x # xs) = str_int x @ NL # write_lines xs"
  by simp

lemma write_lines_append: "write_lines (xs @ ys) = write_lines xs @ write_lines ys"
  by (induction xs) simp_all

lemma write_lines_eq_Nil [simp]: "write_lines xs = [] \<longleftrightarrow> xs = []"
  by (cases xs) simp_all

lemma split_on_line: "c \<notin> set s \<Longrightarrow> split_on c (s @ c # t) = s # split_on c t"
  by (induction s) auto

lemma split_on_write_lines: "split_on NL (write_lines xs) = map str_int xs @ [[]]"
  by (induction xs) (simp_all add: write_lines_Cons split_on_line NL_notin_str_int)

lemma parse_lines_str: "parse_lines (map str_int xs @ [[]]) = Inr xs"
  by (induction xs) (simp_all add: strip_str_int str_int_nonempty py_int_str_int)

lemma decode_write_lines: "decode_block (write_lines xs) = Inr xs"
  by (simp add: decode_block_def split_on_write_lines parse_lines_str)

lemma write_lines_inj: "write_lines xs = write_lines ys \<Longrightarrow> xs = ys"
  by (metis decode_write_lines sum.inject(2))

subsection \<open>The block reader on a run text\<close>

lemma rfind_notin: "c \<notin> set s \<Longrightarrow> rfind c s = - 1"
  by (induction s) auto

lemma rfind_in: "c \<in> set s \<Longrightarrow> 0 \<le> rfind c s"
  by (induction s) auto

lemma rfind_last: "c \<notin> set b \<Longrightarrow> rfind c (a @ c # b) = int (length a)"
  by (induction a) (auto simp: rfind_notin)

lemma take_rfind:
  "take (nat (rfind c s + 1)) s = [] \<or> last (take (nat (rfind c s + 1)) s) = c"
proof (cases "c \<in> set s")
  case True
  then obtain a b where s: "s = a @ c # b" and b: "c \<notin> set b"
    by (meson split_list_last)
  then have "nat (rfind c s + 1) = Suc (length a)"
    by (simp add: rfind_last)
  with s have "take (nat (rfind c s + 1)) s = a @ [c]"
    by simp
  then show ?thesis by simp
next
  case False
  then show ?thesis by (simp add: rfind_notin)
qed

lemma file_read_take: "\<exists>m. file_read content pos n = take m (drop pos content)"
proof (cases "n < 0")
  case True
  then have "file_read content pos n = take (length content) (drop pos content)"
    by (simp add: file_read_def)
  then show ?thesis ..
next
  case False
  then show ?thesis by (auto simp: file_read_def)
qed

lemma read_blocks_next_None:
  "read_blocks_next block_size (content, pos) = None \<longleftrightarrow> file_read content pos block_size = []"
  by (simp add: read_blocks_next_def Let_def)

lemma read_blocks_next_block:
  assumes "read_blocks_next block_size (content, pos) = Some (block, r')"
  shows "(\<exists>t. drop pos content = block @ t) \<and> (block = [] \<or> last block = NL)"
proof -
  define raw where "raw = file_read content pos block_size"
  obtain m where m: "raw = take m (drop pos content)"
    using file_read_take raw_def by blast
  from assms have ne: "raw \<noteq> []"
    by (auto simp: read_blocks_next_def Let_def raw_def split: if_splits)
  show ?thesis
  proof (cases "last raw = NL")
    case True
    with assms ne have "block = raw"
      by (auto simp: read_blocks_next_def Let_def raw_def [symmetric])
    with True m show ?thesis by (metis append_take_drop_id)
  next
    case False
    with assms ne have b: "block = take (nat (rfind NL raw + 1)) raw"
      by (auto simp: read_blocks_next_def Let_def raw_def [symmetric])
    then have "block = take (min (nat (rfind NL raw + 1)) m) (drop pos content)"
      by (simp add: m)
    then have "\<exists>t. drop pos content = block @ t" by (metis append_take_drop_id)
    with b take_rfind [of NL raw] show ?thesis by simp
  qed
qed

lemma read_blocks_next_nonempty:
  assumes "NL \<in> set (file_read content pos block_size)"
  shows "\<exists>block r'. read_blocks_next block_size (content, pos) = Some (block, r') \<and> block \<noteq> []"
proof -
  define raw where "raw = file_read content pos block_size"
  from assms have ne: "raw \<noteq> []" and r: "0 \<le> rfind NL raw"
    by (auto simp: raw_def rfind_in)
  then have "take (nat (rfind NL raw + 1)) raw \<noteq> []" by auto
  with ne show ?thesis
    by (simp add: read_blocks_next_def Let_def raw_def [symmetric])
qed

lemma write_lines_prefix:
  "write_lines zs = b @ t \<Longrightarrow> b = [] \<or> last b = NL \<Longrightarrow> \<exists>k\<le>length zs. b = write_lines (take k zs)"
proof (induction zs arbitrary: b)
  case Nil
  then show ?case by simp
next
  case (Cons z zs)
  show ?case
  proof (cases "b = []")
    case True
    then show ?thesis by (intro exI [of _ 0]) simp
  next
    case False
    with Cons.prems have lb: "last b = NL" by simp
    from Cons.prems(1) have "str_int z @ NL # write_lines zs = b @ t"
      by (simp add: write_lines_Cons)
    then obtain us where
      "(str_int z = b @ us \<and> us @ NL # write_lines zs = t) \<or>
       (str_int z @ us = b \<and> NL # write_lines zs = us @ t)"
      by (auto simp: append_eq_append_conv2)
    then show ?thesis
    proof (elim disjE conjE)
      assume "str_int z = b @ us"
      with False lb have "NL \<in> set (str_int z)"
        by (metis last_in_set Un_iff set_append)
      with NL_notin_str_int show ?thesis by blast
    next
      assume b: "str_int z @ us = b" and e: "NL # write_lines zs = us @ t"
      show ?thesis
      proof (cases us)
        case Nil
        with b lb have "last (str_int z) = NL" by auto
        with str_int_nonempty [of z] have "NL \<in> set (str_int z)"
          by (metis last_in_set)
        with NL_notin_str_int show ?thesis by blast
      next
        case (Cons u us')
        with e have u: "u = NL" and w: "write_lines zs = us' @ t" by auto
        from b lb Cons u have "us' = [] \<or> last us' = NL" by (cases "us' = []") auto
        with Cons.IH [OF w] obtain k where k: "k \<le> length zs" "us' = write_lines (take k zs)"
          by blast
        with b Cons u have "b = write_lines (take (Suc k) (z # zs))"
          by (simp add: write_lines_Cons)
        with k(1) show ?thesis by (intro exI [of _ "Suc k"]) simp
      qed
    qed
  qed
qed

lemma read_blocks_next_run:
  assumes d: "drop pos content = write_lines zs" and bs: "block_size \<noteq> 0"
  shows "case read_blocks_next block_size (content, pos) of
           None \<Rightarrow> zs = []
         | Some (block, r') \<Rightarrow>
             zs \<noteq> [] \<and>
             (\<exists>k\<le>length zs. block = write_lines (take k zs) \<and>
                r' = (content, pos + length block) \<and>
                drop (pos + length block) content = write_lines (drop k zs) \<and>
                (fits block_size (hd zs) \<longrightarrow> 0 < k))"
proof (cases "read_blocks_next block_size (content, pos)")
  case None
  then have "file_read content pos block_size = []" by (simp add: read_blocks_next_None)
  with bs have "drop pos content = []"
    by (auto simp: file_read_def split: if_splits)
  with d have "write_lines zs = []" by simp
  then have "zs = []" by simp
  with None show ?thesis by simp
next
  case (Some a)
  obtain block r' where a: "a = (block, r')" by (cases a)
  with Some have s: "read_blocks_next block_size (content, pos) = Some (block, r')" by simp
  from s have fr: "file_read content pos block_size \<noteq> []"
    using read_blocks_next_None [of block_size content pos] by auto
  have ne: "zs \<noteq> []"
  proof
    assume "zs = []"
    with d have "drop pos content = []" by simp
    then have "file_read content pos block_size = []"
      unfolding file_read_def by simp
    with fr show False by simp
  qed
  from read_blocks_next_block [OF s] d obtain t where
    t: "write_lines zs = block @ t" and e: "block = [] \<or> last block = NL" by auto
  from write_lines_prefix [OF t e] obtain k where
    k: "k \<le> length zs" "block = write_lines (take k zs)" by blast
  from read_blocks_next_pos [OF s] have r': "r' = (content, pos + length block)" by simp
  have "write_lines zs = write_lines (take k zs) @ write_lines (drop k zs)"
    by (simp add: write_lines_append [symmetric])
  with t k have t': "t = write_lines (drop k zs)" by simp
  have "drop (pos + length block) content = drop (length block) (drop pos content)"
    by (simp add: add.commute)
  with d t t' have dr: "drop (pos + length block) content = write_lines (drop k zs)" by simp
  have "0 < k" if f: "fits block_size (hd zs)"
  proof -
    obtain z zs' where z: "zs = z # zs'" using ne by (cases zs) auto
    have "NL \<in> set (file_read content pos block_size)"
    proof (cases "block_size < 0")
      case True
      with d z show ?thesis by (simp add: file_read_def write_lines_Cons)
    next
      case False
      with f z have "length (str_int z) < nat block_size" by (simp add: fits_def)
      then have "take (nat block_size) (str_int z @ NL # write_lines zs')
          = str_int z @ NL # take (nat block_size - Suc (length (str_int z))) (write_lines zs')"
        by (simp add: take_Cons')
      with False d z show ?thesis by (simp add: file_read_def write_lines_Cons)
    qed
    from read_blocks_next_nonempty [OF this] s have "block \<noteq> []" by auto
    with k show ?thesis by (cases k) auto
  qed
  with Some a ne k r' dr show ?thesis by auto
qed


lemma read_blocks_next_stall:
  assumes d: "drop pos content = write_lines (z # zs)" and bs: "0 < block_size"
    and nf: "\<not> fits block_size z"
  shows "read_blocks_next block_size (content, pos) = Some ([], (content, pos))"
proof -
  define raw where "raw = file_read content pos block_size"
  from nf bs have le: "nat block_size \<le> length (str_int z)" by (simp add: fits_def)
  with d bs have raw: "raw = take (nat block_size) (str_int z)"
    by (simp add: raw_def file_read_def write_lines_Cons)
  with le bs str_int_nonempty [of z] have ne: "raw \<noteq> []" by auto
  have "set raw \<subseteq> set (str_int z)" unfolding raw by (rule set_take_subset)
  with NL_notin_str_int have nl: "NL \<notin> set raw" by blast
  with ne have "last raw \<noteq> NL" by (metis last_in_set)
  with ne nl show ?thesis
    by (simp add: read_blocks_next_def Let_def raw_def [symmetric] rfind_notin)
qed

lemma read_blocks_stall:
  assumes "read_blocks_next block_size r = Some ([], r)"
  shows "read_blocks block_size r = None"
proof (cases "read_blocks block_size r")
  case None
  then show ?thesis .
next
  case (Some blocks)
  have "Some blocks = read_blocks block_size r"
    unfolding Some ..
  also have "\<dots> = Option.bind (read_blocks block_size r) (\<lambda>blocks. Some ([] # blocks))"
    by (subst read_blocks.simps) (simp add: assms)
  also have "\<dots> = Some ([] # blocks)"
    unfolding Some by simp
  finally have "blocks = [] # blocks" by simp
  then show ?thesis by simp
qed

lemma decode_block_Nil: "decode_block [] = Inr []"
  by (simp add: decode_block_def)

subsection \<open>The merge loop, abstractly\<close>

lemma tagged_Nil [simp]: "tagged i [] = {#}"
  by (simp add: tagged_def)

lemma tagged_Cons [simp]: "tagged i (x # xs) = add_mset (x, i) (tagged i xs)"
  by (simp add: tagged_def)

lemma sum_tagged_update:
  assumes "i < n" and "pend i = x # p"
  shows "(\<Sum>j<n. tagged j (pend j)) = add_mset (x, i) (\<Sum>j<n. tagged j ((pend(i := p)) j))"
proof -
  have fin: "finite {..<n}" and mem: "i \<in> {..<n}" using assms(1) by auto
  have "(\<Sum>j<n. tagged j (pend j)) = tagged i (pend i) + (\<Sum>j\<in>{..<n} - {i}. tagged j (pend j))"
    by (rule sum.remove [OF fin mem])
  moreover have "(\<Sum>j<n. tagged j ((pend(i := p)) j))
      = tagged i ((pend(i := p)) i) + (\<Sum>j\<in>{..<n} - {i}. tagged j ((pend(i := p)) j))"
    by (rule sum.remove [OF fin mem])
  moreover have "(\<Sum>j\<in>{..<n} - {i}. tagged j ((pend(i := p)) j))
      = (\<Sum>j\<in>{..<n} - {i}. tagged j (pend j))"
    by (rule sum.cong) auto
  ultimately show ?thesis using assms(2) by simp
qed

lemma distinct_snd_insort:
  "distinct (map snd (insort e h)) \<longleftrightarrow> snd e \<notin> snd ` set h \<and> distinct (map snd h)"
proof -
  have "mset (map snd (insort e h)) = mset (map snd (e # h))" by simp
  then have "distinct (map snd (insort e h)) \<longleftrightarrow> distinct (map snd (e # h))"
    by (rule mset_eq_imp_distinct_iff)
  then show ?thesis by simp
qed

lemma pair_le_same: "(v::int) \<le> x \<Longrightarrow> (v, i::nat) \<le> (x, i)"
  by (simp add: less_eq_prod_def)

lemma merge_abs_advance:
  assumes inv: "merge_abs xss pend ((v, i) # h) em" and p: "pend i = x # p"
  shows "merge_abs xss (pend(i := p)) (insort (x, i) h) (em @ [(v, i)])"
proof -
  let ?n = "length xss"
  from inv have i: "i < ?n" and vx: "\<forall>y\<in>set (pend i). v \<le> y"
    and sp: "\<forall>j<?n. sorted (pend j)"
    and sh: "sorted ((v, i) # h)" and dh: "distinct (map snd ((v, i) # h))"
    and he: "\<forall>(w, j)\<in>set h. j < ?n \<and> (\<forall>y\<in>set (pend j). w \<le> y)"
    and ex: "\<forall>j<?n. j \<notin> snd ` set ((v, i) # h) \<longrightarrow> pend j = []"
    and se: "sorted em" and eh: "\<forall>e\<in>set em. \<forall>g\<in>set ((v, i) # h). e \<le> g"
    and ms: "mset em + mset ((v, i) # h) + (\<Sum>j<?n. tagged j (pend j))
        = (\<Sum>j<?n. tagged j (xss ! j))"
    unfolding merge_abs_def by auto
  from vx p have le: "(v, i) \<le> (x, i)" by (simp add: pair_le_same)
  from sp i p have sxp: "sorted (x # p)" by (metis)
  from dh have ni: "i \<notin> snd ` set h" and dh': "distinct (map snd h)" by auto
  have 1: "\<forall>j<?n. sorted ((pend(i := p)) j)"
    using sp sxp by auto
  have 2: "sorted (insort (x, i) h)" using sh by (simp add: sorted_insort)
  have 3: "distinct (map snd (insort (x, i) h))"
    using ni dh' by (simp add: distinct_snd_insort)
  have 4: "\<forall>(w, j)\<in>set (insort (x, i) h). j < ?n \<and> (\<forall>y\<in>set ((pend(i := p)) j). w \<le> y)"
  proof (clarify)
    fix w j assume m: "(w, j) \<in> set (insort (x, i) h)"
    show "j < ?n \<and> (\<forall>y\<in>set ((pend(i := p)) j). w \<le> y)"
    proof (cases "(w, j) = (x, i)")
      case True
      with i sxp show ?thesis by auto
    next
      case False
      with m have mh: "(w, j) \<in> set h" by (auto simp: set_insort_key)
      with ni have "j \<noteq> i" by force
      with he mh show ?thesis by auto
    qed
  qed
  have 5: "\<forall>j<?n. j \<notin> snd ` set (insort (x, i) h) \<longrightarrow> (pend(i := p)) j = []"
    using ex by (auto simp: set_insort_key)
  have 6: "sorted (em @ [(v, i)])"
    using se eh by (auto simp: sorted_append)
  have 7: "\<forall>e\<in>set (em @ [(v, i)]). \<forall>g\<in>set (insort (x, i) h). e \<le> g"
  proof (intro ballI)
    fix e g assume e: "e \<in> set (em @ [(v, i)])" and g: "g \<in> set (insort (x, i) h)"
    have ev: "e \<le> (v, i)" using e eh by auto
    from g have "g = (x, i) \<or> g \<in> set h" by (simp add: set_insort_key)
    then show "e \<le> g"
    proof
      assume "g = (x, i)"
      with ev le show ?thesis by (metis order_trans)
    next
      assume "g \<in> set h"
      with sh have "(v, i) \<le> g" by auto
      with ev show ?thesis by (metis order_trans)
    qed
  qed
  have 8: "mset (em @ [(v, i)]) + mset (insort (x, i) h) + (\<Sum>j<?n. tagged j ((pend(i := p)) j))
        = (\<Sum>j<?n. tagged j (xss ! j))"
    using ms sum_tagged_update [of i ?n pend x p] i p by simp
  from 1 2 3 4 5 6 7 8 show ?thesis unfolding merge_abs_def by blast
qed

lemma merge_abs_exhaust:
  assumes inv: "merge_abs xss pend ((v, i) # h) em" and p: "pend i = []"
  shows "merge_abs xss pend h (em @ [(v, i)])"
proof -
  let ?n = "length xss"
  from inv have i: "i < ?n"
    and sp: "\<forall>j<?n. sorted (pend j)"
    and sh: "sorted ((v, i) # h)" and dh: "distinct (map snd ((v, i) # h))"
    and he: "\<forall>(w, j)\<in>set h. j < ?n \<and> (\<forall>y\<in>set (pend j). w \<le> y)"
    and ex: "\<forall>j<?n. j \<notin> snd ` set ((v, i) # h) \<longrightarrow> pend j = []"
    and se: "sorted em" and eh: "\<forall>e\<in>set em. \<forall>g\<in>set ((v, i) # h). e \<le> g"
    and ms: "mset em + mset ((v, i) # h) + (\<Sum>j<?n. tagged j (pend j))
        = (\<Sum>j<?n. tagged j (xss ! j))"
    unfolding merge_abs_def by auto
  have 5: "\<forall>j<?n. j \<notin> snd ` set h \<longrightarrow> pend j = []"
  proof (intro allI impI)
    fix j assume "j < ?n" "j \<notin> snd ` set h"
    with ex p show "pend j = []" by (cases "j = i") auto
  qed
  have 6: "sorted (em @ [(v, i)])"
    using se eh by (auto simp: sorted_append)
  have 7: "\<forall>e\<in>set (em @ [(v, i)]). \<forall>g\<in>set h. e \<le> g"
    using eh sh by auto
  have 8: "mset (em @ [(v, i)]) + mset h + (\<Sum>j<?n. tagged j (pend j))
        = (\<Sum>j<?n. tagged j (xss ! j))"
    using ms by simp
  from sp sh dh he 5 6 7 8 show ?thesis unfolding merge_abs_def by auto
qed

lemma merge_abs_final:
  assumes "merge_abs xss pend [] em"
  shows "sorted em \<and> mset em = (\<Sum>i<length xss. tagged i (xss ! i))"
proof -
  from assms have "\<forall>i<length xss. pend i = []" unfolding merge_abs_def by simp
  then have "(\<Sum>i<length xss. tagged i (pend i)) = {#}" by simp
  with assms show ?thesis unfolding merge_abs_def by simp
qed

lemma merge_abs_init: "merge_abs [] pend [] []"
  by (simp add: merge_abs_def)

lemma merge_abs_seed:
  assumes inv: "merge_abs xss pend hp []" and s: "sorted (x # p)"
  shows "merge_abs (xss @ [x # p]) (pend(length xss := p)) (insort (x, length xss) hp) []"
proof -
  let ?n = "length xss"
  from inv have sp: "\<forall>j<?n. sorted (pend j)"
    and sh: "sorted hp" and dh: "distinct (map snd hp)"
    and he: "\<forall>(w, j)\<in>set hp. j < ?n \<and> (\<forall>y\<in>set (pend j). w \<le> y)"
    and ex: "\<forall>j<?n. j \<notin> snd ` set hp \<longrightarrow> pend j = []"
    and ms: "mset hp + (\<Sum>j<?n. tagged j (pend j)) = (\<Sum>j<?n. tagged j (xss ! j))"
    unfolding merge_abs_def by auto
  from he have ni: "?n \<notin> snd ` set hp" by force
  have 1: "\<forall>j<length (xss @ [x # p]). sorted ((pend(?n := p)) j)"
    using sp s by (auto simp: less_Suc_eq)
  have 2: "sorted (insort (x, ?n) hp)" using sh by (simp add: sorted_insort)
  have 3: "distinct (map snd (insort (x, ?n) hp))"
    using ni dh by (simp add: distinct_snd_insort)
  have 4: "\<forall>(w, j)\<in>set (insort (x, ?n) hp). j < length (xss @ [x # p]) \<and>
      (\<forall>y\<in>set ((pend(?n := p)) j). w \<le> y)"
  proof (clarify)
    fix w j assume m: "(w, j) \<in> set (insort (x, ?n) hp)"
    show "j < length (xss @ [x # p]) \<and> (\<forall>y\<in>set ((pend(?n := p)) j). w \<le> y)"
    proof (cases "(w, j) = (x, ?n)")
      case True
      with s show ?thesis by auto
    next
      case False
      with m have mh: "(w, j) \<in> set hp" by (auto simp: set_insort_key)
      with he have "j < ?n" by auto
      with he mh show ?thesis by auto
    qed
  qed
  have 5: "\<forall>j<length (xss @ [x # p]). j \<notin> snd ` set (insort (x, ?n) hp) \<longrightarrow>
      (pend(?n := p)) j = []"
    using ex by (auto simp: set_insort_key less_Suc_eq)
  have a: "(\<Sum>j<?n. tagged j ((pend(?n := p)) j)) = (\<Sum>j<?n. tagged j (pend j))"
    by (rule sum.cong) auto
  have b: "(\<Sum>j<?n. tagged j ((xss @ [x # p]) ! j)) = (\<Sum>j<?n. tagged j (xss ! j))"
    by (rule sum.cong) (auto simp: nth_append)
  have 8: "mset [] + mset (insort (x, ?n) hp)
        + (\<Sum>j<length (xss @ [x # p]). tagged j ((pend(?n := p)) j))
        = (\<Sum>j<length (xss @ [x # p]). tagged j ((xss @ [x # p]) ! j))"
    using ms by (simp add: a b)
  from 1 2 3 4 5 8 show ?thesis unfolding merge_abs_def by simp
qed

subsection \<open>The merger keeps its invariant\<close>

lemma merge_abs_cong:
  assumes "\<forall>i<length xss. pend i = pend' i" and "merge_abs xss pend hp em"
  shows "merge_abs xss pend' hp em"
proof -
  have "(\<Sum>i<length xss. tagged i (pend' i)) = (\<Sum>i<length xss. tagged i (pend i))"
    by (rule sum.cong) (use assms(1) in auto)
  moreover have "\<forall>(v, i)\<in>set hp. i < length xss \<and> (\<forall>x\<in>set (pend' i). v \<le> x)"
    using assms unfolding merge_abs_def by fastforce
  ultimately show ?thesis using assms unfolding merge_abs_def by auto
qed

lemma merge_abs_index: "merge_abs xss pend ((v, i) # h) em \<Longrightarrow> i < length xss"
  unfolding merge_abs_def by auto

lemma merge_step_inv:
  assumes inv: "merge_inv xss rests st" and hp: "heap st \<noteq> []" and bs: "block_size \<noteq> 0"
  shows "case merge_step block_size st of
           Inl e \<Rightarrow> \<not> all_fit block_size xss
         | Inr st' \<Rightarrow> \<exists>rests'. merge_inv xss rests' st'"
proof -
  let ?n = "length xss"
  let ?cbs = "current_blocks st"
  let ?pend = "\<lambda>j. ?cbs ! j @ rests ! j"
  obtain v i h where h: "heap st = (v, i) # h"
    using hp by (cases "heap st") auto
  from inv h have A: "merge_abs xss ?pend ((v, i) # h) (emitted st)"
    and lr: "length rests = ?n" and lrd: "length (readers st) = ?n" and lc: "length ?cbs = ?n"
    and rd: "\<forall>j<?n. drop (snd (readers st ! j)) (fst (readers st ! j)) = write_lines (rests ! j) \<and>
        set (rests ! j) \<subseteq> set (xss ! j)"
    unfolding merge_inv_def by auto
  from A have i: "i < ?n" by (rule merge_abs_index)
  show ?thesis
  proof (cases "?cbs ! i")
    case (Cons x xs)
    define st' where "st' = st\<lparr>heap := heappush h (x, i),
        emitted := emitted st @ [(v, i)], current_blocks := ?cbs[i := xs]\<rparr>"
    from h i lc Cons have ms: "merge_step block_size st = Inr st'"
      by (simp add: merge_step_def Let_def st'_def)
    from Cons have "?pend i = x # (xs @ rests ! i)" by simp
    from merge_abs_advance [OF A this]
    have "merge_abs xss (?pend(i := xs @ rests ! i)) (insort (x, i) h) (emitted st @ [(v, i)])" .
    then have "merge_abs xss (\<lambda>j. (?cbs[i := xs]) ! j @ rests ! j) (insort (x, i) h)
        (emitted st @ [(v, i)])"
      by (rule merge_abs_cong [rotated]) (use i lc in \<open>auto simp: nth_list_update\<close>)
    with lr lrd lc rd have "merge_inv xss rests st'"
      by (simp add: merge_inv_def st'_def heappush_def)
    with ms show ?thesis by auto
  next
    case Nil
    obtain content pos where r: "readers st ! i = (content, pos)"
      by (cases "readers st ! i")
    from rd i r have d: "drop pos content = write_lines (rests ! i)"
      and sub: "set (rests ! i) \<subseteq> set (xss ! i)" by auto
    note rn = read_blocks_next_run [OF d bs]
    show ?thesis
    proof (cases "read_blocks_next block_size (content, pos)")
      case None
      define st' where "st' = st\<lparr>heap := h, emitted := emitted st @ [(v, i)]\<rparr>"
      from h i lc lrd Nil r None have ms: "merge_step block_size st = Inr st'"
        by (simp add: merge_step_def Let_def st'_def)
      from None rn have "rests ! i = []" by simp
      with Nil have "?pend i = []" by simp
      from merge_abs_exhaust [OF A this]
      have "merge_abs xss ?pend h (emitted st @ [(v, i)])" .
      with lr lrd lc rd have "merge_inv xss rests st'"
        by (simp add: merge_inv_def st'_def)
      with ms show ?thesis by auto
    next
      case (Some a)
      obtain block r' where a: "a = (block, r')" by (cases a)
      from Some a rn obtain k where ne: "rests ! i \<noteq> []" and k: "k \<le> length (rests ! i)"
        and b: "block = write_lines (take k (rests ! i))"
        and r': "r' = (content, pos + length block)"
        and dr: "drop (pos + length block) content = write_lines (drop k (rests ! i))"
        and f: "fits block_size (hd (rests ! i)) \<longrightarrow> 0 < k" by auto
      from b have dec: "decode_block block = Inr (take k (rests ! i))"
        by (simp add: decode_write_lines)
      show ?thesis
      proof (cases "take k (rests ! i)")
        case Nil': Nil
        from h i lc lrd Nil r Some a dec Nil' have "merge_step block_size st = Inl IndexError"
          by (simp add: merge_step_def Let_def)
        moreover from Nil' ne have "k = 0" by auto
        with f have "\<not> fits block_size (hd (rests ! i))" by auto
        with ne sub i have "\<not> all_fit block_size xss"
          unfolding all_fit_def by (metis hd_in_set nth_mem subsetD)
        ultimately show ?thesis by simp
      next
        case (Cons x xs)
        define st' where "st' = st\<lparr>heap := heappush h (x, i),
            emitted := emitted st @ [(v, i)], readers := (readers st)[i := r'],
            current_blocks := ?cbs[i := xs]\<rparr>"
        define rests' where "rests' = rests[i := drop k (rests ! i)]"
        from h i lc lrd Nil r Some a dec Cons have ms: "merge_step block_size st = Inr st'"
          by (simp add: merge_step_def Let_def st'_def)
        have "rests ! i = take k (rests ! i) @ drop k (rests ! i)" by simp
        with Cons have ri: "rests ! i = x # (xs @ drop k (rests ! i))" by simp
        with Nil have "?pend i = x # (xs @ drop k (rests ! i))" by simp
        from merge_abs_advance [OF A this]
        have "merge_abs xss (?pend(i := xs @ drop k (rests ! i))) (insort (x, i) h)
            (emitted st @ [(v, i)])" .
        then have B: "merge_abs xss (\<lambda>j. (?cbs[i := xs]) ! j @ rests' ! j) (insort (x, i) h)
            (emitted st @ [(v, i)])"
          by (rule merge_abs_cong [rotated])
            (use i lc lr in \<open>auto simp: nth_list_update rests'_def\<close>)
        have C: "\<forall>j<?n. drop (snd ((readers st)[i := r'] ! j)) (fst ((readers st)[i := r'] ! j))
              = write_lines (rests' ! j) \<and> set (rests' ! j) \<subseteq> set (xss ! j)"
        proof (intro allI impI)
          fix j assume j: "j < ?n"
          show "drop (snd ((readers st)[i := r'] ! j)) (fst ((readers st)[i := r'] ! j))
              = write_lines (rests' ! j) \<and> set (rests' ! j) \<subseteq> set (xss ! j)"
          proof (cases "j = i")
            case True
            have "set (drop k (rests ! i)) \<subseteq> set (rests ! i)" by (rule set_drop_subset)
            with True i lr lrd dr r' sub show ?thesis
              by (auto simp: rests'_def)
          next
            case False
            with rd j show ?thesis by (simp add: rests'_def)
          qed
        qed
        from B C lr lrd lc have "merge_inv xss rests' st'"
          by (simp add: merge_inv_def st'_def heappush_def rests'_def)
        with ms show ?thesis by auto
      qed
    qed
  qed
qed

lemma merge_loop_inv:
  assumes "merge_inv xss rests st" and "block_size \<noteq> 0"
  shows "case merge_loop block_size st of
           Inl e \<Rightarrow> \<not> all_fit block_size xss
         | Inr popped \<Rightarrow> sorted popped \<and> mset popped = (\<Sum>i<length xss. tagged i (xss ! i))"
  using assms
proof (induction block_size st arbitrary: rests rule: merge_loop.induct)
  case (1 block_size st)
  show ?case
  proof (cases "heap st = []")
    case True
    with "1.prems" have "merge_abs xss (\<lambda>i. current_blocks st ! i @ rests ! i) [] (emitted st)"
      by (simp add: merge_inv_def)
    from merge_abs_final [OF this] True show ?thesis
      by (subst merge_loop.simps) simp
  next
    case False
    note si = merge_step_inv [OF "1.prems"(1) False "1.prems"(2)]
    show ?thesis
    proof (cases "merge_step block_size st")
      case (Inl e)
      with si False show ?thesis by (subst merge_loop.simps) simp
    next
      case (Inr st')
      with si obtain rests' where "merge_inv xss rests' st'" by auto
      from "1.IH" [OF False Inr this "1.prems"(2)] False Inr show ?thesis
        by (subst merge_loop.simps) simp
    qed
  qed
qed

lemma all_fit_Cons: "all_fit bs (xs # xss) \<longleftrightarrow> (\<forall>x\<in>set xs. fits bs x) \<and> all_fit bs xss"
  by (auto simp: all_fit_def)

lemma seed_loop_inv:
  assumes "merge_inv dn rests st" and "emitted st = []" and "index = length dn"
    and "list_all2 (run_file_of files) names todo" and "block_size \<noteq> 0"
  shows "case seed_loop files block_size names index st of
           Inl e \<Rightarrow> \<not> all_fit block_size todo
         | Inr st' \<Rightarrow> \<exists>rests'. merge_inv (dn @ todo) rests' st' \<and> emitted st' = []"
  using assms
proof (induction names arbitrary: dn rests st index todo)
  case Nil
  then show ?case by auto
next
  case (Cons name names)
  from Cons.prems(4) obtain xs todo' where todo: "todo = xs # todo'"
    and rf: "run_file_of files name xs" and rest: "list_all2 (run_file_of files) names todo'"
    by (auto simp: list_all2_Cons1)
  from rf have fl: "files name = Some (write_lines xs)" and sx: "sorted xs" and ne: "xs \<noteq> []"
    by (auto simp: run_file_of_def)
  let ?n = "length dn"
  from Cons.prems(1) have A: "merge_abs dn (\<lambda>i. current_blocks st ! i @ rests ! i) (heap st) (emitted st)"
    and lr: "length rests = ?n" and lrd: "length (readers st) = ?n"
    and lc: "length (current_blocks st) = ?n"
    and rd: "\<forall>j<?n. drop (snd (readers st ! j)) (fst (readers st ! j)) = write_lines (rests ! j) \<and>
        set (rests ! j) \<subseteq> set (dn ! j)"
    unfolding merge_inv_def by auto
  have d: "drop 0 (write_lines xs) = write_lines xs" by simp
  note rn = read_blocks_next_run [OF d Cons.prems(5)]
  from rn ne obtain block r' k where s: "read_blocks_next block_size (write_lines xs, 0) = Some (block, r')"
    and k: "k \<le> length xs" and b: "block = write_lines (take k xs)"
    and r': "r' = (write_lines xs, 0 + length block)"
    and dr: "drop (0 + length block) (write_lines xs) = write_lines (drop k xs)"
    and f: "fits block_size (hd xs) \<longrightarrow> 0 < k"
    by (cases "read_blocks_next block_size (write_lines xs, 0)") auto
  from b have dec: "decode_block block = Inr (take k xs)"
    by (simp add: decode_write_lines)
  show ?case
  proof (cases "take k xs")
    case Nil
    with fl s dec have "seed_loop files block_size (name # names) index st = Inl IndexError"
      by simp
    moreover from Nil ne have "k = 0" by auto
    with f ne have "\<not> all_fit block_size todo"
      unfolding all_fit_def todo by (metis hd_in_set list.set_intros(1) less_irrefl)
    ultimately show ?thesis by simp
  next
    case (Cons x xs')
    define st' where "st' = st\<lparr>readers := readers st @ [r'],
        current_blocks := current_blocks st @ [xs'], heap := heappush (heap st) (x, index)\<rparr>"
    define rests' where "rests' = rests @ [drop k xs]"
    from fl s dec Cons have sl: "seed_loop files block_size (name # names) index st
        = seed_loop files block_size names (index + 1) st'"
      by (simp add: st'_def)
    have "xs = take k xs @ drop k xs" by simp
    with Cons have xs: "xs = x # (xs' @ drop k xs)" by simp
    with sx have "sorted (x # (xs' @ drop k xs))" by simp
    from merge_abs_seed [OF _ this, of dn "\<lambda>i. current_blocks st ! i @ rests ! i" "heap st"]
      A Cons.prems(2) xs
    have "merge_abs (dn @ [xs]) ((\<lambda>i. current_blocks st ! i @ rests ! i)(?n := xs' @ drop k xs))
        (insort (x, ?n) (heap st)) []" by simp
    then have B: "merge_abs (dn @ [xs]) (\<lambda>i. (current_blocks st @ [xs']) ! i @ rests' ! i)
        (insort (x, ?n) (heap st)) []"
      by (rule merge_abs_cong [rotated]) (use lc lr in \<open>auto simp: nth_append rests'_def\<close>)
    have C: "\<forall>j<length (dn @ [xs]).
        drop (snd ((readers st @ [r']) ! j)) (fst ((readers st @ [r']) ! j)) = write_lines (rests' ! j) \<and>
        set (rests' ! j) \<subseteq> set ((dn @ [xs]) ! j)"
    proof (intro allI impI)
      fix j assume j: "j < length (dn @ [xs])"
      show "drop (snd ((readers st @ [r']) ! j)) (fst ((readers st @ [r']) ! j)) = write_lines (rests' ! j) \<and>
        set (rests' ! j) \<subseteq> set ((dn @ [xs]) ! j)"
      proof (cases "j = ?n")
        case True
        have "set (drop k xs) \<subseteq> set xs" by (rule set_drop_subset)
        with True lr lrd dr r' show ?thesis by (simp add: rests'_def nth_append)
      next
        case False
        with j have "j < ?n" by simp
        with rd lr lrd show ?thesis by (simp add: rests'_def nth_append)
      qed
    qed
    from B C lr lrd lc Cons.prems(2,3) have inv': "merge_inv (dn @ [xs]) rests' st'"
      by (simp add: merge_inv_def st'_def heappush_def rests'_def)
    have e': "emitted st' = []" using Cons.prems(2) by (simp add: st'_def)
    have i': "index + 1 = length (dn @ [xs])" using Cons.prems(3) by simp
    from Cons.IH [OF inv' e' i' rest Cons.prems(5)] sl todo show ?thesis
      by (auto simp: all_fit_Cons split: sum.splits)
  qed
qed

lemma merge_trace_inv:
  assumes "list_all2 (run_file_of files) names xss" and "block_size \<noteq> 0"
  shows "case merge_trace files names block_size of
           Inl e \<Rightarrow> \<not> all_fit block_size xss
         | Inr popped \<Rightarrow> sorted popped \<and> mset popped = (\<Sum>i<length xss. tagged i (xss ! i))"
proof -
  let ?st0 = "\<lparr>readers = [], current_blocks = [], heap = [], emitted = []\<rparr>"
  have i0: "merge_inv [] [] ?st0"
    by (simp add: merge_inv_def merge_abs_init)
  note sl = seed_loop_inv [OF i0 _ _ assms, simplified]
  show ?thesis
  proof (cases "seed_loop files block_size names 0 ?st0")
    case (Inl e)
    with sl show ?thesis by (simp add: merge_trace_def)
  next
    case (Inr st)
    with sl obtain rests where "merge_inv xss rests st" by auto
    from merge_loop_inv [OF this assms(2)] Inr show ?thesis
      by (simp add: merge_trace_def)
  qed
qed

subsection \<open>The merged file, file names, run files\<close>

lemma fst_mono_prod: "(a :: int \<times> nat) \<le> b \<Longrightarrow> fst a \<le> fst b"
  by (auto simp: less_eq_prod_def)

lemma sorted_map_fst: "sorted (ps :: (int \<times> nat) list) \<Longrightarrow> sorted (map fst ps)"
  by (induction ps) (auto simp: fst_mono_prod)

lemma image_fst_tagged: "image_mset fst (tagged i xs) = mset xs"
  by (induction xs) simp_all

lemma image_fst_sum_tagged: "image_mset fst (\<Sum>i<n. tagged i (f i)) = (\<Sum>i<n. mset (f i))"
  by (induction n) (simp_all add: image_fst_tagged)

lemma mset_concat_sum: "mset (concat xss) = (\<Sum>i<length xss. mset (xss ! i))"
proof (induction xss rule: rev_induct)
  case Nil
  then show ?case by simp
next
  case (snoc xs xss)
  have "(\<Sum>i<length xss. mset ((xss @ [xs]) ! i)) = (\<Sum>i<length xss. mset (xss ! i))"
    by (rule sum.cong) (auto simp: nth_append)
  with snoc show ?case by simp
qed

lemma popped_values:
  assumes "sorted popped" and "mset popped = (\<Sum>i<length xss. tagged i (xss ! i))"
  shows "map fst popped = sort (concat xss)"
proof -
  have "mset (map fst popped) = image_mset fst (mset popped)" by simp
  also have "\<dots> = mset (concat xss)"
    by (simp add: assms(2) image_fst_sum_tagged mset_concat_sum)
  finally have "mset (map fst popped) = mset (concat xss)" .
  moreover have "sorted (map fst popped)" using assms(1) by (rule sorted_map_fst)
  ultimately have "sort (concat xss) = map fst popped" by (rule properties_for_sort)
  then show ?thesis by simp
qed

lemma merge_K_runs_spec:
  assumes "list_all2 (run_file_of files) names xss" and "block_size \<noteq> 0"
  shows "case merge_K_runs names block_size identifier files of
           Inl e \<Rightarrow> \<not> all_fit block_size xss
         | Inr (name, files') \<Rightarrow>
             name = merged_filename identifier \<and>
             files' = files(name \<mapsto> write_lines (sort (concat xss)))"
proof (cases "merge_trace files names block_size")
  case (Inl e)
  with merge_trace_inv [OF assms] show ?thesis by (simp add: merge_K_runs_def)
next
  case (Inr popped)
  with merge_trace_inv [OF assms] have "map fst popped = sort (concat xss)"
    by (simp add: popped_values)
  with Inr show ?thesis by (simp add: merge_K_runs_def)
qed

lemma str_int_no_underscore: "CHR ''_'' \<notin> set (str_int i)"
proof -
  have "c \<noteq> CHR ''_''" if "isdigit c" for c
    using that by (auto simp: isdigit_def)
  then have "CHR ''_'' \<notin> set (str_nat n)" for n
    using str_nat_digits [of n] by (auto simp: list_all_iff)
  then show ?thesis by (simp add: str_int_def)
qed

lemma append_sep_eq:
  assumes "c \<notin> set a" and "c \<notin> set a'" and "a @ c # b = a' @ c # b'"
  shows "a = a' \<and> b = b'"
  using assms
proof (induction a arbitrary: a')
  case Nil
  then show ?case by (cases a') auto
next
  case (Cons x a)
  then show ?case by (cases a') auto
qed

lemma batch_identifier_inj: "batch_identifier i j = batch_identifier i' j' \<Longrightarrow> i = i' \<and> j = j'"
  unfolding batch_identifier_def
  using append_sep_eq [of "CHR ''_''" "str_int i" "str_int i'" "str_int j" "str_int j'"]
  by (auto simp: str_int_no_underscore dest: str_int_inj)

lemma merged_filename_inj: "merged_filename a = merged_filename b \<Longrightarrow> a = b"
  by (simp add: merged_filename_def)

lemma run_filename_inj: "run_filename i = run_filename j \<Longrightarrow> i = j"
  by (auto simp: run_filename_def dest: str_int_inj)

lemma run_filename_not_merged: "run_filename i \<noteq> merged_filename a"
  by (simp add: run_filename_def merged_filename_def)

lemma generate_runs_loop_spec:
  assumes "generate_runs_loop rs index files = (names, files')"
  shows "names = map run_filename [index..index + int (length rs) - 1] \<and>
         list_all2 (\<lambda>name r. files' name = Some (write_lines (sort r))) names rs \<and>
         (\<forall>name. name \<notin> set names \<longrightarrow> files' name = files name)"
  using assms
proof (induction rs arbitrary: index files names files')
  case Nil
  then show ?case by simp
next
  case (Cons r rs)
  obtain names1 files2 where g: "generate_runs_loop rs (index + 1)
       (files(run_filename index \<mapsto> write_lines (sort r))) = (names1, files2)"
    by (cases "generate_runs_loop rs (index + 1) (files(run_filename index \<mapsto> write_lines (sort r)))")
  with Cons.prems have n: "names = run_filename index # names1" and f: "files' = files2"
    by (auto simp: create_run_file_def)
  from Cons.IH [OF g]
  have n1: "names1 = map run_filename [index + 1..index + 1 + int (length rs) - 1]"
    and c1: "list_all2 (\<lambda>name r. files2 name = Some (write_lines (sort r))) names1 rs"
    and o1: "\<forall>name. name \<notin> set names1 \<longrightarrow>
         files2 name = (files(run_filename index \<mapsto> write_lines (sort r))) name"
    by blast+
  have ni: "run_filename index \<notin> set names1"
  proof
    assume "run_filename index \<in> set names1"
    with n1 obtain k where "index + 1 \<le> k" "run_filename index = run_filename k" by auto
    then show False by (auto dest: run_filename_inj)
  qed
  with o1 have h: "files2 (run_filename index) = Some (write_lines (sort r))" by simp
  have u: "[index..index + int (length (r # rs)) - 1]
      = index # [index + 1..index + 1 + int (length rs) - 1]"
    by (subst upto_rec1) (simp_all add: add.commute add.left_commute)
  have a: "names = map run_filename [index..index + int (length (r # rs)) - 1]"
    unfolding n u n1 by simp
  have b: "list_all2 (\<lambda>name r. files' name = Some (write_lines (sort r))) names (r # rs)"
    unfolding n f using h c1 by simp
  have c: "\<forall>name. name \<notin> set names \<longrightarrow> files' name = files name"
    unfolding n f using o1 by auto
  from a b c show ?case by blast
qed

lemma run_filenames_distinct: "distinct (map run_filename [i..j])"
  by (simp add: distinct_map inj_on_def) (auto dest: run_filename_inj)

subsection \<open>Batches of a merge pass\<close>

lemma run_file_of_upd: "name \<noteq> out \<Longrightarrow> run_file_of (files(out \<mapsto> t)) name xs = run_file_of files name xs"
  by (simp add: run_file_of_def)

lemma merge_batches_spec:
  assumes "list_all2 (\<lambda>b xss. list_all2 (run_file_of files) (fst b) xss) bl ysss"
    and "\<forall>b\<in>set bl. \<forall>b'\<in>set bl. merged_filename (snd b') \<notin> set (fst b)"
    and "distinct (map (\<lambda>b. merged_filename (snd b)) bl)"
    and "block_size \<noteq> 0"
  shows "case merge_batches block_size bl files of
           Inl e \<Rightarrow> \<not> (\<forall>xss\<in>set ysss. all_fit block_size xss)
         | Inr (new_runs, files') \<Rightarrow>
             new_runs = map (\<lambda>b. merged_filename (snd b)) bl \<and>
             list_all2 (\<lambda>name xss. files' name = Some (write_lines (sort (concat xss)))) new_runs ysss \<and>
             (\<forall>name. name \<notin> set new_runs \<longrightarrow> files' name = files name)"
  using assms
proof (induction bl arbitrary: files ysss)
  case Nil
  then show ?case by simp
next
  case (Cons b bl)
  obtain names ident where b: "b = (names, ident)" by (cases b)
  from Cons.prems(1) obtain xss ysss' where y: "ysss = xss # ysss'"
    and h: "list_all2 (run_file_of files) names xss"
    and t: "list_all2 (\<lambda>b xss. list_all2 (run_file_of files) (fst b) xss) bl ysss'"
    by (auto simp: list_all2_Cons1 b)
  let ?out = "merged_filename ident"
  note mk = merge_K_runs_spec [OF h Cons.prems(4), of ident]
  show ?case
  proof (cases "merge_K_runs names block_size ident files")
    case (Inl e)
    with mk show ?thesis by (simp add: b y)
  next
    case (Inr a)
    with mk have a: "a = (?out, files(?out \<mapsto> write_lines (sort (concat xss))))"
      by (cases a) simp
    let ?files1 = "files(?out \<mapsto> write_lines (sort (concat xss)))"
    have t1: "list_all2 (\<lambda>b xss. list_all2 (run_file_of ?files1) (fst b) xss) bl ysss'"
    proof (rule list.rel_mono_strong [OF t])
      fix b' xss' assume b': "b' \<in> set bl" and r: "list_all2 (run_file_of files) (fst b') xss'"
      from b' Cons.prems(2) have no: "?out \<notin> set (fst b')" by (auto simp: b)
      show "list_all2 (run_file_of ?files1) (fst b') xss'"
      proof (rule list.rel_mono_strong [OF r])
        fix name xs assume m: "name \<in> set (fst b')" and rf: "run_file_of files name xs"
        from m no have "name \<noteq> ?out" by auto
        with rf show "run_file_of ?files1 name xs"
          by (simp add: run_file_of_upd)
      qed
    qed
    from Cons.prems(2) have p2: "\<forall>b\<in>set bl. \<forall>b'\<in>set bl. merged_filename (snd b') \<notin> set (fst b)"
      by simp
    from Cons.prems(3) have p3: "distinct (map (\<lambda>b. merged_filename (snd b)) bl)"
      and no: "?out \<notin> set (map (\<lambda>b. merged_filename (snd b)) bl)" by (auto simp: b)
    note ih = Cons.IH [OF t1 p2 p3 Cons.prems(4)]
    have ms: "merge_batches block_size (b # bl) files =
        (case merge_batches block_size bl ?files1 of
           Inl e \<Rightarrow> Inl e
         | Inr (new_runs, files2) \<Rightarrow> Inr (?out # new_runs, files2))"
      unfolding b by (simp add: Inr a)
    show ?thesis
    proof (cases "merge_batches block_size bl ?files1")
      case (Inl e)
      from ih have "\<not> (\<forall>xss\<in>set ysss'. all_fit block_size xss)"
        unfolding Inl by simp
      then show ?thesis unfolding ms Inl y by simp
    next
      case r2: (Inr c)
      obtain new_runs files2 where c: "c = (new_runs, files2)" by (cases c)
      from ih [unfolded r2 c sum.case prod.case]
      have n: "new_runs = map (\<lambda>b. merged_filename (snd b)) bl"
        and l: "list_all2 (\<lambda>name xss. files2 name = Some (write_lines (sort (concat xss)))) new_runs ysss'"
        and o: "\<forall>name. name \<notin> set new_runs \<longrightarrow> files2 name = ?files1 name"
        by blast+
      from o no n have h2: "files2 ?out = Some (write_lines (sort (concat xss)))" by simp
      from o have o2: "\<forall>name. name \<notin> set (?out # new_runs) \<longrightarrow> files2 name = files name"
        by simp
      have n2: "?out # new_runs = map (\<lambda>b. merged_filename (snd b)) (b # bl)"
        unfolding n b by simp
      have l2: "list_all2 (\<lambda>name xss. files2 name = Some (write_lines (sort (concat xss))))
          (?out # new_runs) ysss"
        unfolding y using h2 l by simp
      from n2 l2 o2 show ?thesis unfolding ms r2 c by simp
    qed
  qed
qed

lemma remove_all_spec:
  assumes "distinct runs" and "\<forall>r\<in>set runs. files r \<noteq> None"
  shows "remove_all runs files = Inr (\<lambda>name. if name \<in> set runs then None else files name)"
  using assms
proof (induction runs arbitrary: files)
  case Nil
  then show ?case by simp
next
  case (Cons r runs)
  from Cons.prems have "remove_all runs (files(r := None))
      = Inr (\<lambda>name. if name \<in> set runs then None else (files(r := None)) name)"
    by (intro Cons.IH) auto
  moreover have "(\<lambda>name. if name \<in> set runs then None else (files(r := None)) name)
      = (\<lambda>name. if name \<in> set (r # runs) then None else files name)"
    by auto
  ultimately show ?case using Cons.prems by simp
qed

lemma chunk_count_Suc:
  assumes "0 < K" and "0 < n"
  shows "(n + K - 1) div K = Suc ((n - K + K - 1) div K)"
proof (cases "K \<le> n")
  case True
  then have "n + K - 1 = (n - K + K - 1) + K" using assms by simp
  then have "(n + K - 1) div K = ((n - K + K - 1) + K) div K" by (rule arg_cong)
  also have "\<dots> = Suc ((n - K + K - 1) div K)" using assms(1) by (simp only: div_add_self2)
  finally show ?thesis .
next
  case False
  with assms have "(n + K - 1) div K = 1"
    by (intro div_nat_eqI) simp_all
  moreover from False assms have "(n - K + K - 1) div K = 0" by simp
  ultimately show ?thesis by simp
qed

lemma chunk_start_less:
  assumes "0 < K" and "j < (n + K - 1) div K"
  shows "j * K < (n::nat)"
proof -
  from assms(2) have "Suc j \<le> (n + K - 1) div K" by simp
  with assms(1) have "Suc j * K \<le> n + K - 1" by (simp only: less_eq_div_iff_mult_less_eq)
  moreover from assms have "0 < n" by (cases n) auto
  ultimately show ?thesis using assms(1) by simp
qed

lemma chunk_count_less:
  assumes "2 \<le> K" and "2 \<le> n"
  shows "(n + K - 1) div K < (n::nat)"
proof -
  obtain k where k: "K = k + 2" using assms(1) by (metis add.commute le_Suc_ex)
  obtain m where m: "n = m + 2" using assms(2) by (metis add.commute le_Suc_ex)
  have "n + K - 1 < n * K" unfolding k m by simp
  moreover have "0 < K" using assms(1) by simp
  ultimately show ?thesis by (simp only: div_less_iff_less_mult)
qed

lemma concat_chunks:
  assumes "0 < K"
  shows "concat (map (\<lambda>j. take K (drop (j * K) xs)) [0..<(length xs + K - 1) div K]) = xs"
proof (induction "length xs" arbitrary: xs rule: less_induct)
  case less
  show ?case
  proof (cases "xs = []")
    case True
    with assms show ?thesis by simp
  next
    case False
    then have n: "0 < length xs" by simp
    let ?m = "(length xs - K + K - 1) div K"
    from assms n have lt: "length (drop K xs) < length xs" by simp
    have e: "take K (drop (Suc j * K) xs) = take K (drop (j * K) (drop K xs))" for j
      by (simp only: drop_drop mult_Suc add.commute)
    from less [OF lt]
    have "concat (map (\<lambda>j. take K (drop (j * K) (drop K xs))) [0..<?m]) = drop K xs"
      by (simp only: length_drop)
    then have r: "concat (map (\<lambda>j. take K (drop (Suc j * K) xs)) [0..<?m]) = drop K xs"
      by (simp only: e)
    have "concat (map (\<lambda>j. take K (drop (j * K) xs)) [0..<(length xs + K - 1) div K])
        = concat (map (\<lambda>j. take K (drop (j * K) xs)) [0..<Suc ?m])"
      by (simp only: chunk_count_Suc [OF assms n])
    also have "\<dots> = take K (drop (0 * K) xs) @ concat (map (\<lambda>j. take K (drop (Suc j * K) xs)) [0..<?m])"
      by (simp only: map_upt_Suc concat.simps)
    also have "\<dots> = take K xs @ drop K xs"
      by (simp only: r mult_0 drop_0)
    finally show ?thesis by simp
  qed
qed

subsection \<open>A merge pass\<close>

lemma all_fit_concat: "all_fit bs xss \<longleftrightarrow> (\<forall>x\<in>set (concat xss). fits bs x)"
  by (auto simp: all_fit_def)

lemma all_fit_mset: "mset (concat xss') = mset (concat xss) \<Longrightarrow> all_fit bs xss' = all_fit bs xss"
  unfolding all_fit_concat by (metis set_mset_mset)

lemma mset_concat_sort: "mset (concat (map (\<lambda>j. sort (f j)) js)) = mset (concat (map f js))"
  by (induction js) simp_all

lemma concat_map_concat: "concat (map (\<lambda>j. concat (c j)) js) = concat (concat (map c js))"
  by (induction js) simp_all

lemma chunks_mset:
  assumes "0 < k"
  shows "mset (concat (map (\<lambda>j. sort (concat (take k (drop (j * k) xss))))
            [0..<(length xss + k - 1) div k])) = mset (concat xss)"
proof -
  let ?js = "[0..<(length xss + k - 1) div k]"
  have "concat (map (\<lambda>j. concat (take k (drop (j * k) xss))) ?js)
      = concat (concat (map (\<lambda>j. take k (drop (j * k) xss)) ?js))"
    by (rule concat_map_concat)
  also have "\<dots> = concat xss" by (simp only: concat_chunks [OF assms])
  finally show ?thesis by (simp only: mset_concat_sort)
qed

lemma py_range_pos:
  "0 < K \<Longrightarrow> py_range n K = Inr (map (\<lambda>j. j * nat K) [0..<(n + nat K - 1) div nat K])"
  by (simp add: py_range_def)

lemma batch_pos:
  assumes "0 < K"
  shows "batch runs K it (j * nat K) =
     (take (nat K) (drop (j * nat K) runs), batch_identifier it (int j + 1))"
proof -
  have "int (j * nat K) div K = int j" using assms by simp
  then show ?thesis by (simp add: batch_def)
qed

lemma run_file_of_nonempty: "list_all2 (run_file_of files) runs xss \<Longrightarrow> [] \<notin> set xss"
  by (induction rule: list_all2_induct) (auto simp: run_file_of_def)

lemma run_file_of_exists:
  "list_all2 (run_file_of files) runs xss \<Longrightarrow> r \<in> set runs \<Longrightarrow> files r \<noteq> None"
  by (induction rule: list_all2_induct) (auto simp: run_file_of_def)

lemma merge_pass_spec:
  assumes fr: "frontier files runs xss it" and K: "0 < K" and bs: "block_size \<noteq> 0"
  shows "case merge_pass K block_size runs it files of
           Inl e \<Rightarrow> \<not> all_fit block_size xss
         | Inr (new_runs, files') \<Rightarrow>
             length new_runs = (length runs + nat K - 1) div nat K \<and>
             frontier files' new_runs
               (map (\<lambda>j. sort (concat (take (nat K) (drop (j * nat K) xss))))
                  [0..<(length runs + nat K - 1) div nat K]) (it + 1)"
proof -
  let ?k = "nat K"
  let ?m = "(length runs + ?k - 1) div ?k"
  let ?js = "[0..<?m]"
  let ?bl = "map (\<lambda>j. (take ?k (drop (j * ?k) runs), batch_identifier it (int j + 1))) ?js"
  let ?ysss = "map (\<lambda>j. take ?k (drop (j * ?k) xss)) ?js"
  let ?new = "map (\<lambda>j. merged_filename (batch_identifier it (int j + 1))) ?js"
  let ?xss' = "map (\<lambda>j. sort (concat (take ?k (drop (j * ?k) xss)))) ?js"
  from K have k: "0 < ?k" by simp
  from fr have la: "list_all2 (run_file_of files) runs xss" and dr: "distinct runs"
    and fresh: "\<forall>name\<in>set runs. \<forall>it' j. it \<le> it' \<longrightarrow> name \<noteq> merged_filename (batch_identifier it' j)"
    unfolding frontier_def by auto
  from la have len: "length xss = length runs" by (simp add: list_all2_lengthD)
  have bl: "map (batch runs K it) (map (\<lambda>j. j * ?k) ?js) = ?bl"
    by (simp add: batch_pos [OF K] comp_def)
  have mp: "merge_pass K block_size runs it files =
      (case merge_batches block_size ?bl files of
         Inl e \<Rightarrow> Inl e
       | Inr (new_runs, files1) \<Rightarrow>
           (case remove_all runs files1 of
              Inl e \<Rightarrow> Inl e
            | Inr files2 \<Rightarrow> Inr (new_runs, files2)))"
    unfolding merge_pass_def py_range_pos [OF K] by (simp only: sum.case bl)
  have a1: "list_all2 (\<lambda>b xss. list_all2 (run_file_of files) (fst b) xss) ?bl ?ysss"
    unfolding list_all2_map1 list_all2_map2
    by (rule list_all2_same [THEN iffD2]) (auto intro: list_all2_takeI list_all2_dropI la)
  have sub: "set (take ?k (drop i runs)) \<subseteq> set runs" for i
    by (meson set_take_subset set_drop_subset subset_trans)
  have a2: "\<forall>b\<in>set ?bl. \<forall>b'\<in>set ?bl. merged_filename (snd b') \<notin> set (fst b)"
  proof (intro ballI)
    fix b b' assume "b \<in> set ?bl" "b' \<in> set ?bl"
    then obtain j j' where b: "fst b = take ?k (drop (j * ?k) runs)"
      and b': "snd b' = batch_identifier it (int j' + 1)" by auto
    show "merged_filename (snd b') \<notin> set (fst b)"
    proof
      assume "merged_filename (snd b') \<in> set (fst b)"
      with sub b have "merged_filename (snd b') \<in> set runs" by auto
      with fresh b' show False by auto
    qed
  qed
  have inj: "inj_on (\<lambda>j. merged_filename (batch_identifier it (int j + 1))) (set ?js)"
    by (rule inj_onI) (auto dest!: merged_filename_inj batch_identifier_inj)
  have nw: "map (\<lambda>b. merged_filename (snd b)) ?bl = ?new"
    by (simp add: comp_def)
  have dn: "distinct ?new"
    by (simp only: distinct_map inj distinct_upt simp_thms)
  have a3: "distinct (map (\<lambda>b. merged_filename (snd b)) ?bl)"
    unfolding nw by (rule dn)
  note mb = merge_batches_spec [OF a1 a2 a3 bs]
  have af: "(\<forall>c\<in>set ?ysss. all_fit block_size c)" if "all_fit block_size xss"
  proof
    fix c assume "c \<in> set ?ysss"
    then obtain j where "c = take ?k (drop (j * ?k) xss)" by auto
    then have "set c \<subseteq> set xss" by (meson set_take_subset set_drop_subset subset_trans)
    with that show "all_fit block_size c" by (auto simp: all_fit_def)
  qed
  show ?thesis
  proof (cases "merge_batches block_size ?bl files")
    case (Inl e)
    from mb have "\<not> (\<forall>c\<in>set ?ysss. all_fit block_size c)" unfolding Inl by simp
    with af have "\<not> all_fit block_size xss" by blast
    then show ?thesis unfolding mp Inl by simp
  next
    case (Inr c)
    obtain new_runs files1 where c: "c = (new_runs, files1)" by (cases c)
    from mb [unfolded Inr c sum.case prod.case nw]
    have n: "new_runs = ?new"
      and l: "list_all2 (\<lambda>name xss. files1 name = Some (write_lines (sort (concat xss)))) new_runs ?ysss"
      and o: "\<forall>name. name \<notin> set new_runs \<longrightarrow> files1 name = files name"
      by blast+
    have disj: "name \<notin> set runs" if "name \<in> set new_runs" for name
      using that fresh unfolding n by auto
    have ex: "\<forall>r\<in>set runs. files1 r \<noteq> None"
    proof
      fix r assume r: "r \<in> set runs"
      with disj have "r \<notin> set new_runs" by auto
      with o have "files1 r = files r" by simp
      moreover from la r have "files r \<noteq> None" by (rule run_file_of_exists)
      ultimately show "files1 r \<noteq> None" by simp
    qed
    let ?files2 = "\<lambda>name. if name \<in> set runs then None else files1 name"
    from remove_all_spec [OF dr ex] have ra: "remove_all runs files1 = Inr ?files2" .
    have res: "merge_pass K block_size runs it files = Inr (new_runs, ?files2)"
      unfolding mp Inr c by (simp add: ra)
    have ne: "[] \<notin> set xss" using la by (rule run_file_of_nonempty)
    have l2: "list_all2 (run_file_of ?files2) new_runs ?xss'"
      unfolding list_all2_map2
    proof (rule list.rel_mono_strong [OF l [unfolded list_all2_map2]])
      fix name j assume nm: "name \<in> set new_runs" and j: "j \<in> set ?js"
        and f: "files1 name = Some (write_lines (sort (concat (take ?k (drop (j * ?k) xss)))))"
      from j have "j * ?k < length xss" using chunk_start_less [OF k, of j "length runs"] len by simp
      then have "drop (j * ?k) xss \<noteq> []" by simp
      with k have "take ?k (drop (j * ?k) xss) \<noteq> []" by (cases "drop (j * ?k) xss") auto
      then obtain y ys where t: "take ?k (drop (j * ?k) xss) = y # ys"
        by (cases "take ?k (drop (j * ?k) xss)") auto
      then have "y \<in> set (take ?k (drop (j * ?k) xss))" by simp
      then have "y \<in> set xss" by (meson in_set_takeD in_set_dropD)
      with ne have "y \<noteq> []" by auto
      with t have "concat (take ?k (drop (j * ?k) xss)) \<noteq> []" by simp
      then have "sort (concat (take ?k (drop (j * ?k) xss))) \<noteq> []"
        by (metis length_sort length_0_conv)
      with f disj [OF nm] show "run_file_of ?files2 name (sort (concat (take ?k (drop (j * ?k) xss))))"
        by (simp add: run_file_of_def)
    qed
    have fr2: "\<forall>name\<in>set new_runs. \<forall>it' j. it + 1 \<le> it' \<longrightarrow>
        name \<noteq> merged_filename (batch_identifier it' j)"
      unfolding n by (auto dest!: merged_filename_inj batch_identifier_inj)
    from l2 dn fr2 have "frontier ?files2 new_runs ?xss' (it + 1)"
      unfolding frontier_def n by blast
    moreover have "length new_runs = ?m" unfolding n by simp
    ultimately show ?thesis unfolding res by simp
  qed
qed

subsection \<open>The scheduler with a fan-in of two or more\<close>

lemma sort_cong_mset: "mset xs = mset ys \<Longrightarrow> sort xs = sort ys"
  by (rule properties_for_sort) simp_all

lemma merge_runs_loop_spec:
  assumes "frontier files runs xss it" and "2 \<le> K" and "block_size \<noteq> 0" and "runs \<noteq> []"
  shows "case merge_runs_loop K block_size runs it files of
           None \<Rightarrow> False
         | Some (Inl e) \<Rightarrow> \<not> all_fit block_size xss
         | Some (Inr (runs', it', files')) \<Rightarrow>
             \<exists>r. runs' = [r] \<and> files' r = Some (write_lines (sort (concat xss)))"
  using assms
proof (induction "length runs" arbitrary: runs xss it files rule: less_induct)
  case less
  from less.prems(1) have la: "list_all2 (run_file_of files) runs xss"
    by (simp add: frontier_def)
  show ?case
  proof (cases "1 < length runs")
    case False
    with less.prems(4) obtain r where r: "runs = [r]"
      by (cases runs) auto
    with la obtain ys where ys: "xss = [ys]" "run_file_of files r ys"
      by (auto simp: list_all2_Cons1)
    from r have "merge_runs_loop K block_size runs it files = Some (Inr (runs, it, files))"
      by (subst merge_runs_loop.simps) simp
    with r ys show ?thesis by (simp add: run_file_of_def sorted_sort_id)
  next
    case True
    from less.prems(2) have K: "0 < K" by simp
    note mp = merge_pass_spec [OF less.prems(1) K less.prems(3)]
    let ?k = "nat K"
    let ?m = "(length runs + ?k - 1) div ?k"
    let ?xss' = "map (\<lambda>j. sort (concat (take ?k (drop (j * ?k) xss)))) [0..<?m]"
    from la have len: "length xss = length runs" by (simp add: list_all2_lengthD)
    show ?thesis
    proof (cases "merge_pass K block_size runs it files")
      case (Inl e)
      with mp have "\<not> all_fit block_size xss" by simp
      moreover from True Inl have "merge_runs_loop K block_size runs it files = Some (Inl e)"
        by (subst merge_runs_loop.simps) simp
      ultimately show ?thesis by simp
    next
      case (Inr c)
      obtain new_runs files' where c: "c = (new_runs, files')" by (cases c)
      from mp [unfolded Inr c sum.case prod.case]
      have ln: "length new_runs = ?m" and fr: "frontier files' new_runs ?xss' (it + 1)"
        by blast+
      from True less.prems(2) have lt: "?m < length runs"
        by (intro chunk_count_less) auto
      from True K have "0 < ?m" by (simp add: div_greater_zero_iff)
      with ln have ne: "new_runs \<noteq> []" by auto
      have ms: "mset (concat ?xss') = mset (concat xss)"
        using chunks_mset [of ?k xss] K len by simp
      note ih = less.hyps [OF lt [folded ln] fr less.prems(2,3) ne]
      have eq: "merge_runs_loop K block_size runs it files
          = merge_runs_loop K block_size new_runs (it + 1) files'"
        using True Inr c by (subst merge_runs_loop.simps) simp
      from ih show ?thesis
        unfolding eq sort_cong_mset [OF ms] all_fit_mset [OF ms] .
    qed
  qed
qed

subsection \<open>Run generation\<close>

lemma divide_loop_spec:
  assumes "divide_loop memory_limit lines run current_bytes = Inr runs"
    and "current_bytes = NUMBER_SIZE * int (length run)"
    and "run = [] \<or> run_bound memory_limit run"
  shows "\<exists>ns. parse_input lines = map Inr ns \<and> concat runs = run @ ns \<and>
           [] \<notin> set runs \<and> (\<forall>r\<in>set runs. run_bound memory_limit r)"
  using assms
proof (induction lines arbitrary: run current_bytes runs)
  case Nil
  then show ?case by (auto simp: parse_input_def split: if_splits)
next
  case (Cons line rest)
  let ?flush = "current_bytes + NUMBER_SIZE > memory_limit \<and> run \<noteq> []"
  let ?run1 = "if ?flush then [] else run"
  let ?bytes1 = "if ?flush then 0 else current_bytes"
  from Cons.prems(1) obtain number runs1 where
    p: "py_int (strip line) = Inr number"
    and d: "divide_loop memory_limit rest (?run1 @ [number]) (?bytes1 + NUMBER_SIZE) = Inr runs1"
    and r: "runs = (if ?flush then run # runs1 else runs1)"
    by (auto simp: Let_def split: sum.splits)
  have b: "?bytes1 + NUMBER_SIZE = NUMBER_SIZE * int (length (?run1 @ [number]))"
    using Cons.prems(2) by (simp add: algebra_simps)
  have rb: "?run1 @ [number] = [] \<or> run_bound memory_limit (?run1 @ [number])"
  proof (cases "?flush \<or> run = []")
    case True
    then have "length (?run1 @ [number]) = 1" by auto
    then show ?thesis by (simp add: run_bound_def)
  next
    case False
    then have "current_bytes + NUMBER_SIZE \<le> memory_limit" by auto
    with Cons.prems(2) False show ?thesis
      by (simp add: run_bound_def algebra_simps)
  qed
  from Cons.IH [OF d b rb] obtain ns where
    ns: "parse_input rest = map Inr ns" "concat runs1 = (?run1 @ [number]) @ ns"
      "[] \<notin> set runs1" "\<forall>r\<in>set runs1. run_bound memory_limit r" by blast
  have 1: "parse_input (line # rest) = map Inr (number # ns)"
    using p ns(1) by (simp add: parse_input_def)
  have 2: "concat runs = run @ number # ns"
    using r ns(2) by (auto split: if_splits)
  have 3: "[] \<notin> set runs" using r ns(3) by (auto split: if_splits)
  have 4: "\<forall>r\<in>set runs. run_bound memory_limit r"
    using r ns(4) Cons.prems(3) by (auto split: if_splits)
  from 1 2 3 4 show ?case by blast
qed

lemma divide_loop_total:
  assumes "parse_input lines = map Inr ns"
  shows "\<exists>runs. divide_loop memory_limit lines run current_bytes = Inr runs"
  using assms
proof (induction lines arbitrary: ns run current_bytes)
  case Nil
  then show ?case by simp
next
  case (Cons line rest)
  from Cons.prems obtain number ns' where p: "py_int (strip line) = Inr number"
    and r: "parse_input rest = map Inr ns'"
    by (cases ns) (auto simp: parse_input_def)
  let ?flush = "current_bytes + NUMBER_SIZE > memory_limit \<and> run \<noteq> []"
  from Cons.IH [OF r] obtain runs1 where
    "divide_loop memory_limit rest ((if ?flush then [] else run) @ [number])
       ((if ?flush then 0 else current_bytes) + NUMBER_SIZE) = Inr runs1" by blast
  with p show ?case by (simp add: Let_def)
qed

lemma divide_loop_error:
  assumes "divide_loop memory_limit lines run current_bytes = Inl e"
  shows "\<not> (\<exists>ns. parse_input lines = map Inr ns)"
  using assms divide_loop_total by (metis sum.distinct(1) sum.inject(2) Inl_Inr_False)

lemma read_numbers_and_divide_spec:
  assumes "read_numbers_and_divide lines memory_limit = Inr runs"
  shows "\<exists>ns. parse_input lines = map Inr ns \<and> concat runs = ns \<and>
           [] \<notin> set runs \<and> (\<forall>r\<in>set runs. run_bound memory_limit r)"
  using divide_loop_spec [of memory_limit lines "[]" 0 runs] assms
  by (simp add: read_numbers_and_divide_def)

lemma generate_runs_frontier:
  assumes "generate_runs lines memory_limit files = Inr (names, files')"
  shows "\<exists>rs. read_numbers_and_divide lines memory_limit = Inr rs \<and>
           names = map run_filename [1..int (length rs)] \<and>
           (\<forall>name. name \<notin> set names \<longrightarrow> files' name = files name) \<and>
           frontier files' names (map sort rs) it"
proof -
  from assms obtain rs where rd: "read_numbers_and_divide lines memory_limit = Inr rs"
    and g: "generate_runs_loop rs 1 files = (names, files')"
    by (auto simp: generate_runs_def split: sum.splits)
  from read_numbers_and_divide_spec [OF rd] have ne: "[] \<notin> set rs" by blast
  have "[1..1 + int (length rs) - 1] = [1..int (length rs)]" by simp
  with generate_runs_loop_spec [OF g]
  have n: "names = map run_filename [1..int (length rs)]"
    and l: "list_all2 (\<lambda>name r. files' name = Some (write_lines (sort r))) names rs"
    and o: "\<forall>name. name \<notin> set names \<longrightarrow> files' name = files name"
    by metis+
  have "list_all2 (run_file_of files') names (map sort rs)"
    unfolding list_all2_map2
  proof (rule list.rel_mono_strong [OF l])
    fix name r assume "r \<in> set rs" and f: "files' name = Some (write_lines (sort r))"
    with ne have "r \<noteq> []" by auto
    then have "sort r \<noteq> []" by (metis length_sort length_0_conv)
    with f show "run_file_of files' name (sort r)" by (simp add: run_file_of_def)
  qed
  moreover have "distinct names" unfolding n by (rule run_filenames_distinct)
  moreover have "\<forall>name\<in>set names. \<forall>it' j. it \<le> it' \<longrightarrow>
      name \<noteq> merged_filename (batch_identifier it' j)"
    unfolding n by (auto simp: run_filename_not_merged)
  ultimately have "frontier files' names (map sort rs) it"
    unfolding frontier_def by blast
  with rd n o show ?thesis by blast
qed

subsection \<open>The scheduler with a fan-in below two\<close>

lemma merge_batches_length:
  "merge_batches block_size bl files = Inr (new_runs, files') \<Longrightarrow> length new_runs = length bl"
proof (induction bl arbitrary: files new_runs files')
  case Nil
  then show ?case by simp
next
  case (Cons b bl)
  obtain names ident where b: "b = (names, ident)" by (cases b)
  from Cons.prems obtain out files1 new1 where
    "merge_batches block_size bl files1 = Inr (new1, files')" and "new_runs = out # new1"
    unfolding b by (auto split: sum.splits)
  with Cons.IH show ?case by auto
qed

lemma merge_pass_one_length:
  assumes "merge_pass 1 block_size runs it files = Inr (new_runs, files')"
  shows "length new_runs = length runs"
proof -
  from assms obtain files1 where
    "merge_batches block_size (map (batch runs 1 it) (map (\<lambda>j. j * nat 1) [0..<length runs])) files
       = Inr (new_runs, files1)"
    by (auto simp: merge_pass_def py_range_def split: sum.splits)
  from merge_batches_length [OF this] show ?thesis by simp
qed

lemma merge_runs_loop_one_no_exit:
  assumes "merge_runs_loop K block_size runs it files = Some y"
  shows "K = 1 \<longrightarrow> 2 \<le> length runs \<longrightarrow> (\<exists>e. y = Inl e)"
proof (rule merge_runs_loop.raw_induct
    [where P = "\<lambda>K block_size runs it files y. K = 1 \<longrightarrow> 2 \<le> length runs \<longrightarrow> (\<exists>e. y = Inl e)",
     OF _ assms])
  fix loop :: "int \<Rightarrow> int \<Rightarrow> string list \<Rightarrow> int \<Rightarrow> fs \<Rightarrow> (error + string list \<times> int \<times> fs) option"
    and K block_size runs it files y
  assume IH: "\<And>K block_size runs it files y. loop K block_size runs it files = Some y \<Longrightarrow>
      K = 1 \<longrightarrow> 2 \<le> length runs \<longrightarrow> (\<exists>e. y = Inl e)"
    and eq: "(if 1 < length runs
       then case merge_pass K block_size runs it files of
              Inl e \<Rightarrow> Some (Inl e)
            | Inr (new_runs, files1) \<Rightarrow> loop K block_size new_runs (it + 1) files1
       else Some (Inr (runs, it, files))) = Some y"
  show "K = 1 \<longrightarrow> 2 \<le> length runs \<longrightarrow> (\<exists>e. y = Inl e)"
  proof (intro impI)
    assume K: "K = 1" and n: "2 \<le> length runs"
    show "\<exists>e. y = Inl e"
    proof (cases "merge_pass K block_size runs it files")
      case (Inl e)
      with eq n show ?thesis by auto
    next
      case (Inr c)
      obtain new_runs files' where c: "c = (new_runs, files')" by (cases c)
      from Inr c K have ln: "length new_runs = length runs"
        by (auto dest: merge_pass_one_length)
      from eq n Inr c have "loop K block_size new_runs (it + 1) files' = Some y"
        by simp
      from IH [OF this] K n ln show ?thesis by simp
    qed
  qed
qed

lemma merge_pass_zero: "merge_pass 0 block_size runs it files = Inl ValueError"
  by (simp add: merge_pass_def py_range_def)

lemma merge_runs_loop_zero:
  "1 < length runs \<Longrightarrow> merge_runs_loop 0 block_size runs it files = Some (Inl ValueError)"
  by (subst merge_runs_loop.simps) (simp add: merge_pass_zero)

lemma merge_runs_loop_negative:
  assumes "K < 0" and "1 < length runs"
  shows "(\<exists>e. merge_runs_loop K block_size runs it files = Some (Inl e)) \<or>
         (\<exists>files'. merge_runs_loop K block_size runs it files = Some (Inr ([], it + 1, files')))"
proof (cases "remove_all runs files")
  case (Inl e)
  with assms have "merge_pass K block_size runs it files = Inl e"
    by (simp add: merge_pass_def py_range_def)
  with assms(2) have "merge_runs_loop K block_size runs it files = Some (Inl e)"
    by (subst merge_runs_loop.simps) simp
  then show ?thesis by blast
next
  case (Inr files')
  with assms have "merge_pass K block_size runs it files = Inr ([], files')"
    by (simp add: merge_pass_def py_range_def)
  with assms(2) have "merge_runs_loop K block_size runs it files
      = merge_runs_loop K block_size [] (it + 1) files'"
    by (subst merge_runs_loop.simps) simp
  also have "\<dots> = Some (Inr ([], it + 1, files'))"
    by (subst merge_runs_loop.simps) simp
  finally show ?thesis by blast
qed

lemma merge_runs_success_fan_in:
  assumes "merge_runs runs output_file_path memory_limit block_size files = Some (Inr files')"
    and "2 \<le> length runs"
  shows "2 \<le> memory_limit div block_size"
proof (rule ccontr)
  let ?K = "memory_limit div block_size"
  assume "\<not> 2 \<le> ?K"
  then consider "?K = 1" | "?K = 0" | "?K < 0" by linarith
  then show False
  proof cases
    case 1
    from assms(1) obtain r where "merge_runs_loop ?K block_size runs 1 files = Some (Inr r)"
      by (auto simp: merge_runs_def split: if_splits option.splits sum.splits)
    from merge_runs_loop_one_no_exit [OF this] 1 assms(2) show False by auto
  next
    case 2
    with assms(2) have "merge_runs_loop ?K block_size runs 1 files = Some (Inl ValueError)"
      by (simp add: merge_runs_loop_zero)
    with assms(1) show False by (auto simp: merge_runs_def split: if_splits)
  next
    case 3
    with assms(2) merge_runs_loop_negative [of ?K runs block_size 1 files]
    have "(\<exists>e. merge_runs_loop ?K block_size runs 1 files = Some (Inl e)) \<or>
         (\<exists>f. merge_runs_loop ?K block_size runs 1 files = Some (Inr ([], 1 + 1, f)))" by simp
    with assms(1) show False by (auto simp: merge_runs_def split: if_splits)
  qed
qed

lemma single_chunks:
  assumes "\<forall>xs\<in>set xss. sorted xs"
  shows "map (\<lambda>j. sort (concat (take (nat 1) (drop (j * nat 1) xss)))) [0..<(length xss + nat 1 - 1) div nat 1] = xss"
proof (rule nth_equalityI)
  show "length (map (\<lambda>j. sort (concat (take (nat 1) (drop (j * nat 1) xss)))) [0..<(length xss + nat 1 - 1) div nat 1]) = length xss"
    by simp
next
  fix i assume "i < length (map (\<lambda>j. sort (concat (take (nat 1) (drop (j * nat 1) xss)))) [0..<(length xss + nat 1 - 1) div nat 1])"
  then have i: "i < length xss" by simp
  then have "take 1 (drop i xss) = [xss ! i]"
    by (simp add: Cons_nth_drop_Suc [symmetric])
  moreover from i assms have "sort (xss ! i) = xss ! i" by (simp add: sorted_sort_id)
  ultimately show "map (\<lambda>j. sort (concat (take (nat 1) (drop (j * nat 1) xss)))) [0..<(length xss + nat 1 - 1) div nat 1] ! i = xss ! i"
    using i by simp
qed

lemma run_file_of_sorted: "list_all2 (run_file_of files) runs xss \<Longrightarrow> \<forall>xs\<in>set xss. sorted xs"
  by (induction rule: list_all2_induct) (auto simp: run_file_of_def)

lemma merge_pass_one:
  assumes fr: "frontier files runs xss it" and bs: "block_size \<noteq> 0"
  shows "case merge_pass 1 block_size runs it files of
           Inl e \<Rightarrow> \<not> all_fit block_size xss
         | Inr (new_runs, files') \<Rightarrow>
             length new_runs = length runs \<and> frontier files' new_runs xss (it + 1)"
proof -
  from fr have la: "list_all2 (run_file_of files) runs xss" by (simp add: frontier_def)
  then have len: "length runs = length xss" by (simp add: list_all2_lengthD)
  from la have "\<forall>xs\<in>set xss. sorted xs" by (rule run_file_of_sorted)
  from single_chunks [OF this] merge_pass_spec [OF fr _ bs, of 1] show ?thesis
    by (auto simp: len split: sum.splits)
qed

lemma merge_runs_loop_one_diverges:
  assumes "merge_runs_loop K block_size runs it files = Some y"
  shows "K = 1 \<longrightarrow> block_size \<noteq> 0 \<longrightarrow> 2 \<le> length runs \<longrightarrow>
           (\<forall>xss. frontier files runs xss it \<longrightarrow> \<not> all_fit block_size xss)"
proof (rule merge_runs_loop.raw_induct
    [where P = "\<lambda>K block_size runs it files y. K = 1 \<longrightarrow> block_size \<noteq> 0 \<longrightarrow> 2 \<le> length runs \<longrightarrow>
           (\<forall>xss. frontier files runs xss it \<longrightarrow> \<not> all_fit block_size xss)",
     OF _ assms])
  fix loop :: "int \<Rightarrow> int \<Rightarrow> string list \<Rightarrow> int \<Rightarrow> fs \<Rightarrow> (error + string list \<times> int \<times> fs) option"
    and K block_size runs it files y
  assume IH: "\<And>K block_size runs it files y. loop K block_size runs it files = Some y \<Longrightarrow>
      K = 1 \<longrightarrow> block_size \<noteq> 0 \<longrightarrow> 2 \<le> length runs \<longrightarrow>
           (\<forall>xss. frontier files runs xss it \<longrightarrow> \<not> all_fit block_size xss)"
    and eq: "(if 1 < length runs
       then case merge_pass K block_size runs it files of
              Inl e \<Rightarrow> Some (Inl e)
            | Inr (new_runs, files1) \<Rightarrow> loop K block_size new_runs (it + 1) files1
       else Some (Inr (runs, it, files))) = Some y"
  show "K = 1 \<longrightarrow> block_size \<noteq> 0 \<longrightarrow> 2 \<le> length runs \<longrightarrow>
           (\<forall>xss. frontier files runs xss it \<longrightarrow> \<not> all_fit block_size xss)"
  proof (intro impI allI notI)
    fix xss
    assume K: "K = 1" and bs: "block_size \<noteq> 0" and n: "2 \<le> length runs"
      and fr: "frontier files runs xss it" and af: "all_fit block_size xss"
    note mp = merge_pass_one [OF fr bs]
    show False
    proof (cases "merge_pass 1 block_size runs it files")
      case (Inl e)
      with mp af show False by simp
    next
      case (Inr c)
      obtain new_runs files' where c: "c = (new_runs, files')" by (cases c)
      from mp [unfolded Inr c sum.case prod.case]
      have ln: "length new_runs = length runs" and fr': "frontier files' new_runs xss (it + 1)"
        by blast+
      from eq n Inr c K have "loop K block_size new_runs (it + 1) files' = Some y"
        by simp
      from IH [OF this] K bs n ln fr' af show False by simp
    qed
  qed
qed

subsection \<open>\<^verbatim>\<open>merge_runs\<close> and the whole sort\<close>

lemma merge_runs_spec:
  assumes fr: "frontier files runs xss 1" and ne: "runs \<noteq> []"
    and K: "2 \<le> memory_limit div block_size"
  shows "case merge_runs runs output_file_path memory_limit block_size files of
           None \<Rightarrow> False
         | Some (Inl e) \<Rightarrow> \<not> all_fit block_size xss
         | Some (Inr files') \<Rightarrow> files' output_file_path = Some (write_lines (sort (concat xss)))"
proof -
  from K have bs: "block_size \<noteq> 0" by auto
  note sp = merge_runs_loop_spec [OF fr K bs ne]
  show ?thesis
  proof (cases "merge_runs_loop (memory_limit div block_size) block_size runs 1 files")
    case None
    with sp show ?thesis by simp
  next
    case (Some a)
    show ?thesis
    proof (cases a)
      case (Inl e)
      with sp Some bs show ?thesis by (simp add: merge_runs_def)
    next
      case (Inr c)
      obtain runs' it' files' where c: "c = (runs', it', files')" by (cases c)
      from sp [unfolded Some Inr c option.case sum.case prod.case]
      obtain r where "runs' = [r]" "files' r = Some (write_lines (sort (concat xss)))" by blast
      with Some Inr c bs show ?thesis by (simp add: merge_runs_def os_rename_def)
    qed
  qed
qed

lemma merge_runs_single:
  assumes "files r = Some content" and "block_size \<noteq> 0"
  shows "merge_runs [r] output_file_path memory_limit block_size files
      = Some (Inr ((files(r := None))(output_file_path \<mapsto> content)))"
proof -
  have "merge_runs_loop (memory_limit div block_size) block_size [r] 1 files
      = Some (Inr ([r], 1, files))"
    by (subst merge_runs_loop.simps) simp
  with assms show ?thesis by (simp add: merge_runs_def os_rename_def)
qed

lemma merge_runs_empty:
  "merge_runs [] output_file_path memory_limit block_size files
      = Some (Inl (if block_size = 0 then ZeroDivisionError else IndexError))"
proof -
  have "merge_runs_loop (memory_limit div block_size) block_size [] 1 files
      = Some (Inr ([], 1, files))"
    by (subst merge_runs_loop.simps) simp
  then show ?thesis by (simp add: merge_runs_def)
qed

lemma merge_runs_partial:
  assumes fr: "frontier files runs xss 1"
    and ok: "merge_runs runs output_file_path memory_limit block_size files = Some (Inr files')"
  shows "files' output_file_path = Some (write_lines (sort (concat xss)))"
proof -
  from fr have la: "list_all2 (run_file_of files) runs xss" by (simp add: frontier_def)
  consider "runs = []" | "length runs = 1" | "2 \<le> length runs"
    by (cases runs) (auto simp: Suc_le_eq)
  then show ?thesis
  proof cases
    case 1
    with ok show ?thesis by (simp add: merge_runs_empty)
  next
    case 2
    then obtain r where r: "runs = [r]" by (cases runs) auto
    with la obtain ys where ys: "xss = [ys]" "run_file_of files r ys"
      by (auto simp: list_all2_Cons1)
    from ok have bs: "block_size \<noteq> 0" by (auto simp: merge_runs_def split: if_splits)
    from ys have fl: "files r = Some (write_lines ys)" and so: "sorted ys"
      by (auto simp: run_file_of_def)
    from merge_runs_single [of files r "write_lines ys" block_size output_file_path memory_limit]
      fl bs ok r
    have "files' = (files(r := None))(output_file_path \<mapsto> write_lines ys)" by simp
    with ys so show ?thesis by (simp add: sorted_sort_id)
  next
    case 3
    from merge_runs_success_fan_in [OF ok 3] have K: "2 \<le> memory_limit div block_size" .
    from 3 have "runs \<noteq> []" by auto
    from merge_runs_spec [OF fr this K, of output_file_path] ok show ?thesis by simp
  qed
qed

lemma all_fit_sorted_runs: "all_fit bs (map sort rs) \<longleftrightarrow> (\<forall>x\<in>set (concat rs). fits bs x)"
  by (auto simp: all_fit_def)

lemma sort_concat_sorted_runs: "sort (concat (map sort rs)) = sort (concat rs)"
proof (rule sort_cong_mset)
  show "mset (concat (map sort rs)) = mset (concat rs)"
    by (induction rs) simp_all
qed

lemma singleton_runs: "\<forall>r\<in>set rs. length r = 1 \<Longrightarrow> rs = map (\<lambda>x. [x]) (concat rs)"
proof (induction rs)
  case Nil
  then show ?case by simp
next
  case (Cons r rs)
  then obtain x where "r = [x]" by (cases r) auto
  with Cons show ?case by simp
qed

lemma str_int_1: "str_int 1 = ''1''"
  by code_simp

lemma run_filename_1: "run_filename 1 = ''run1.txt''"
  by (simp add: run_filename_def str_int_1)

subsection \<open>The order of the merge, the seeding loop, examples\<close>

lemma mset_concat_tagged:
  "mset (concat (map (\<lambda>i. map (\<lambda>x. (x, i)) (f i)) [0..<n])) = (\<Sum>i<n. tagged i (f i))"
  by (induction n) (simp_all add: tagged_def)

lemma sorted_pairs_ties:
  assumes "sorted (ps :: (int \<times> nat) list)" and "a < b" and "b < length ps"
    and "fst (ps ! a) = fst (ps ! b)"
  shows "snd (ps ! a) \<le> snd (ps ! b)"
proof -
  from assms(1-3) have "ps ! a \<le> ps ! b" by (simp add: sorted_nth_mono)
  with assms(4) show ?thesis by (auto simp: less_eq_prod_def)
qed

lemma two_runs_files:
  "list_all2 (run_file_of two_runs) [run_filename 1, run_filename 2] [[3, 5], [3]]"
proof -
  have "run_filename 1 \<noteq> run_filename 2" by (auto dest: run_filename_inj)
  then show ?thesis by (simp add: run_file_of_def two_runs_def)
qed

lemma two_runs_frontier:
  "frontier two_runs [run_filename 1, run_filename 2] [[3, 5], [3]] it"
proof -
  have "run_filename 1 \<noteq> run_filename 2" by (auto dest: run_filename_inj)
  with two_runs_files show ?thesis
    by (simp add: frontier_def run_filename_not_merged)
qed

lemma two_runs_fit: "all_fit 2 [[3, 5], [3]]"
  by code_simp

lemma run_files_contents:
  "list_all2 (run_file_of files) runs xss \<Longrightarrow> map files runs = map (\<lambda>xs. Some (write_lines xs)) xss"
  by (induction rule: list_all2_induct) (auto simp: run_file_of_def)

lemma seed_loop_error:
  assumes "list_all2 (run_file_of files) names todo" and "block_size \<noteq> 0"
    and "seed_loop files block_size names index st = Inl e"
  shows "e = IndexError"
  using assms
proof (induction names arbitrary: todo index st)
  case Nil
  then show ?case by simp
next
  case (Cons name names)
  from Cons.prems(1) obtain xs todo' where todo: "todo = xs # todo'"
    and rf: "run_file_of files name xs" and rest: "list_all2 (run_file_of files) names todo'"
    by (auto simp: list_all2_Cons1)
  from rf have fl: "files name = Some (write_lines xs)" and ne: "xs \<noteq> []"
    by (auto simp: run_file_of_def)
  have d: "drop 0 (write_lines xs) = write_lines xs" by simp
  from read_blocks_next_run [OF d Cons.prems(2)] ne obtain block r' k where
    s: "read_blocks_next block_size (write_lines xs, 0) = Some (block, r')"
    and b: "block = write_lines (take k xs)"
    by (cases "read_blocks_next block_size (write_lines xs, 0)") auto
  from b have dec: "decode_block block = Inr (take k xs)" by (simp add: decode_write_lines)
  show ?case
  proof (cases "take k xs")
    case Nil
    with fl s dec Cons.prems(3) show ?thesis by simp
  next
    case (Cons x xs')
    with fl s dec Cons.prems(3) obtain st' where
      "seed_loop files block_size names (index + 1) st' = Inl e" by simp
    from Cons.IH [OF rest Cons.prems(2) this] show ?thesis .
  qed
qed

lemma seed_loop_empty_file:
  "files name = Some [] \<Longrightarrow> seed_loop files block_size (name # rest) index st = Inl StopIteration"
  by (simp add: read_blocks_next_def file_read_def)

subsection \<open>The length of a block\<close>





subsection \<open>The calls of the merger\<close>

lemma merge_batches_calls:
  "\<exists>n dirs news. n \<le> length bl \<and> length dirs = Suc n \<and> length news = n \<and> dirs ! 0 = files \<and>
     (\<forall>j<n. merge_K_runs (fst (bl ! j)) block_size (snd (bl ! j)) (dirs ! j)
               = Inr (news ! j, dirs ! Suc j)) \<and>
     (if n = length bl then merge_batches block_size bl files = Inr (news, dirs ! n)
      else \<exists>e. merge_K_runs (fst (bl ! n)) block_size (snd (bl ! n)) (dirs ! n) = Inl e \<and>
               merge_batches block_size bl files = Inl e)"
proof (induction bl arbitrary: files)
  case Nil
  have "0 \<le> length ([] :: (string list \<times> string) list) \<and> length [files] = Suc 0 \<and>
      length ([] :: string list) = 0 \<and> [files] ! 0 = files \<and>
      (\<forall>j<0::nat. merge_K_runs (fst ([] ! j)) block_size (snd ([] ! j)) ([files] ! j)
               = Inr ([] ! j, [files] ! Suc j)) \<and>
      (if 0 = length ([] :: (string list \<times> string) list)
       then merge_batches block_size [] files = Inr ([], [files] ! 0)
       else \<exists>e. merge_K_runs (fst ([] ! 0)) block_size (snd ([] ! 0)) ([files] ! 0) = Inl e \<and>
               merge_batches block_size [] files = Inl e)"
    by simp
  then show ?case by blast
next
  case (Cons b bl)
  obtain current_runs ident where b: "b = (current_runs, ident)" by (cases b)
  show ?case
  proof (cases "merge_K_runs current_runs block_size ident files")
    case (Inl e)
    with b have "0 \<le> length (b # bl) \<and> length [files] = Suc 0 \<and>
      length ([] :: string list) = 0 \<and> [files] ! 0 = files \<and>
      (\<forall>j<0::nat. merge_K_runs (fst ((b # bl) ! j)) block_size (snd ((b # bl) ! j)) ([files] ! j)
               = Inr ([] ! j, [files] ! Suc j)) \<and>
      (if 0 = length (b # bl)
       then merge_batches block_size (b # bl) files = Inr ([], [files] ! 0)
       else \<exists>e. merge_K_runs (fst ((b # bl) ! 0)) block_size (snd ((b # bl) ! 0)) ([files] ! 0) = Inl e \<and>
               merge_batches block_size (b # bl) files = Inl e)"
      by simp
    then show ?thesis by blast
  next
    case (Inr c)
    obtain merged_run files1 where c: "c = (merged_run, files1)" by (cases c)
    from Cons.IH [of files1] obtain n dirs news where
      n: "n \<le> length bl" and ld: "length dirs = Suc n" and ln: "length news = n"
      and d0: "dirs ! 0 = files1"
      and calls: "\<forall>j<n. merge_K_runs (fst (bl ! j)) block_size (snd (bl ! j)) (dirs ! j)
               = Inr (news ! j, dirs ! Suc j)"
      and fin: "if n = length bl then merge_batches block_size bl files1 = Inr (news, dirs ! n)
      else \<exists>e. merge_K_runs (fst (bl ! n)) block_size (snd (bl ! n)) (dirs ! n) = Inl e \<and>
               merge_batches block_size bl files1 = Inl e"
      by blast
    have calls': "\<forall>j<Suc n. merge_K_runs (fst ((b # bl) ! j)) block_size (snd ((b # bl) ! j))
            ((files # dirs) ! j) = Inr ((merged_run # news) ! j, (files # dirs) ! Suc j)"
    proof (intro allI impI)
      fix j assume j: "j < Suc n"
      show "merge_K_runs (fst ((b # bl) ! j)) block_size (snd ((b # bl) ! j))
            ((files # dirs) ! j) = Inr ((merged_run # news) ! j, (files # dirs) ! Suc j)"
      proof (cases j)
        case 0
        with Inr c b d0 show ?thesis by simp
      next
        case (Suc i)
        with j calls show ?thesis by simp
      qed
    qed
    have fin': "if Suc n = length (b # bl)
       then merge_batches block_size (b # bl) files = Inr (merged_run # news, (files # dirs) ! Suc n)
       else \<exists>e. merge_K_runs (fst ((b # bl) ! Suc n)) block_size (snd ((b # bl) ! Suc n))
                   ((files # dirs) ! Suc n) = Inl e \<and>
               merge_batches block_size (b # bl) files = Inl e"
      using fin Inr c b by (auto split: if_splits)
    from n ld ln calls' fin'
    have "Suc n \<le> length (b # bl) \<and> length (files # dirs) = Suc (Suc n) \<and>
      length (merged_run # news) = Suc n \<and> (files # dirs) ! 0 = files \<and>
      (\<forall>j<Suc n. merge_K_runs (fst ((b # bl) ! j)) block_size (snd ((b # bl) ! j))
            ((files # dirs) ! j) = Inr ((merged_run # news) ! j, (files # dirs) ! Suc j)) \<and>
      (if Suc n = length (b # bl)
       then merge_batches block_size (b # bl) files = Inr (merged_run # news, (files # dirs) ! Suc n)
       else \<exists>e. merge_K_runs (fst ((b # bl) ! Suc n)) block_size (snd ((b # bl) ! Suc n))
                   ((files # dirs) ! Suc n) = Inl e \<and>
               merge_batches block_size (b # bl) files = Inl e)"
      by simp
    then show ?thesis by blast
  qed
qed

lemma merge_runs_loop_passes:
  assumes "merge_runs_loop K block_size runs it files = Some y"
  shows "case y of
           Inl e \<Rightarrow> \<exists>runs1 it1 files1. passes K block_size (runs, it, files) (runs1, it1, files1) \<and>
                      1 < length runs1 \<and> merge_pass K block_size runs1 it1 files1 = Inl e
         | Inr st \<Rightarrow> passes K block_size (runs, it, files) st \<and> length (fst st) \<le> 1"
proof (rule merge_runs_loop.raw_induct
    [where P = "\<lambda>K block_size runs it files y. case y of
           Inl e \<Rightarrow> \<exists>runs1 it1 files1. passes K block_size (runs, it, files) (runs1, it1, files1) \<and>
                      1 < length runs1 \<and> merge_pass K block_size runs1 it1 files1 = Inl e
         | Inr st \<Rightarrow> passes K block_size (runs, it, files) st \<and> length (fst st) \<le> 1",
     OF _ assms])
  fix loop :: "int \<Rightarrow> int \<Rightarrow> string list \<Rightarrow> int \<Rightarrow> fs \<Rightarrow> (error + string list \<times> int \<times> fs) option"
    and K block_size runs it files y
  assume IH: "\<And>K block_size runs it files y. loop K block_size runs it files = Some y \<Longrightarrow>
      (case y of
           Inl e \<Rightarrow> \<exists>runs1 it1 files1. passes K block_size (runs, it, files) (runs1, it1, files1) \<and>
                      1 < length runs1 \<and> merge_pass K block_size runs1 it1 files1 = Inl e
         | Inr st \<Rightarrow> passes K block_size (runs, it, files) st \<and> length (fst st) \<le> 1)"
    and eq: "(if 1 < length runs
       then case merge_pass K block_size runs it files of
              Inl e \<Rightarrow> Some (Inl e)
            | Inr (new_runs, files1) \<Rightarrow> loop K block_size new_runs (it + 1) files1
       else Some (Inr (runs, it, files))) = Some y"
  show "case y of
           Inl e \<Rightarrow> \<exists>runs1 it1 files1. passes K block_size (runs, it, files) (runs1, it1, files1) \<and>
                      1 < length runs1 \<and> merge_pass K block_size runs1 it1 files1 = Inl e
         | Inr st \<Rightarrow> passes K block_size (runs, it, files) st \<and> length (fst st) \<le> 1"
  proof (cases "1 < length runs")
    case False
    with eq have "y = Inr (runs, it, files)" by simp
    with False show ?thesis by (simp add: passes_refl)
  next
    case True
    show ?thesis
    proof (cases "merge_pass K block_size runs it files")
      case (Inl e)
      with eq True have "y = Inl e" by simp
      with True Inl passes_refl [of K block_size "(runs, it, files)"] show ?thesis
        by auto
    next
      case (Inr c)
      obtain new_runs files1 where c: "c = (new_runs, files1)" by (cases c)
      from eq True Inr c have l: "loop K block_size new_runs (it + 1) files1 = Some y" by simp
      note step = passes_step [OF True Inr [unfolded c]]
      show ?thesis
      proof (cases y)
        case (Inl e)
        with IH [OF l] obtain runs1 it1 files1' where
          p: "passes K block_size (new_runs, it + 1, files1) (runs1, it1, files1')"
          and r: "1 < length runs1" "merge_pass K block_size runs1 it1 files1' = Inl e"
          by auto
        from step [OF p] r have "\<exists>runs1 it1 files1. passes K block_size (runs, it, files) (runs1, it1, files1) \<and>
                      1 < length runs1 \<and> merge_pass K block_size runs1 it1 files1 = Inl e"
          by blast
        with Inl show ?thesis by simp
      next
        case (Inr st)
        with IH [OF l] step show ?thesis by auto
      qed
    qed
  qed
qed

section \<open>The claims\<close>

subsection \<open>The whole sort\<close>

text \<open>
  C1. The output of \<^verbatim>\<open>external_merge_sort\<close> is non-decreasing and a permutation of
  the input records. Input lines that \<^verbatim>\<open>int\<close> reads as \<open>records\<close> are written
  \<open>parse_input lines = map Inr records\<close>. First, for every input, budget, block size
  and directory: whenever the call returns, the lines were all numbers and the file
  \<^verbatim>\<open>output2.txt\<close> holds, one per line, a sorted list with the multiset of the input
  records. Second, the call does return for every non-empty input, a run-size boundary
  or a single record included, when the fan-in \<open>memory_limit div block_size\<close> is at
  least 2 and every line, newline included, is no longer than a block. (The empty
  input is claim C2, a single run with a smaller fan-in claim C7.)
\<close>

theorem ems_sorts:
  "(external_merge_sort lines memory_limit block_size files = Some (Inr files') \<longrightarrow>
      (\<exists>records out. parse_input lines = map Inr records \<and>
         files' ''output2.txt'' = Some (write_lines out) \<and> sorted out \<and> mset out = mset records)) \<and>
   (parse_input lines = map Inr records \<and> records \<noteq> [] \<and> 2 \<le> memory_limit div block_size \<and>
    (\<forall>x\<in>set records. fits block_size x) \<longrightarrow>
      (\<exists>files' out. external_merge_sort lines memory_limit block_size files = Some (Inr files') \<and>
         files' ''output2.txt'' = Some (write_lines out) \<and> sorted out \<and> mset out = mset records))"
proof (intro conjI impI)
  assume ok: "external_merge_sort lines memory_limit block_size files = Some (Inr files')"
  then obtain runs files1 where g: "generate_runs lines (memory_limit div 3) files = Inr (runs, files1)"
    and m: "merge_runs runs ''output2.txt'' memory_limit block_size files1 = Some (Inr files')"
    by (auto simp: external_merge_sort_def Let_def split: sum.splits)
  from generate_runs_frontier [OF g, of 1] obtain rs where
    rd: "read_numbers_and_divide lines (memory_limit div 3) = Inr rs"
    and fr: "frontier files1 runs (map sort rs) 1" by blast
  from read_numbers_and_divide_spec [OF rd] have p: "parse_input lines = map Inr (concat rs)"
    by blast
  from merge_runs_partial [OF fr m]
  have "files' ''output2.txt'' = Some (write_lines (sort (concat rs)))"
    by (simp add: sort_concat_sorted_runs)
  with p show "\<exists>records out. parse_input lines = map Inr records \<and>
         files' ''output2.txt'' = Some (write_lines out) \<and> sorted out \<and> mset out = mset records"
    by (intro exI [of _ "concat rs"] exI [of _ "sort (concat rs)"]) simp
next
  assume h: "parse_input lines = map Inr records \<and> records \<noteq> [] \<and>
    2 \<le> memory_limit div block_size \<and> (\<forall>x\<in>set records. fits block_size x)"
  then have p: "parse_input lines = map Inr records" and ne: "records \<noteq> []"
    and K: "2 \<le> memory_limit div block_size" and f: "\<forall>x\<in>set records. fits block_size x"
    by blast+
  from divide_loop_total [OF p] obtain rs where
    rd: "read_numbers_and_divide lines (memory_limit div 3) = Inr rs"
    unfolding read_numbers_and_divide_def by blast
  obtain runs files1 where gl: "generate_runs_loop rs 1 files = (runs, files1)"
    by (cases "generate_runs_loop rs 1 files")
  with rd have g: "generate_runs lines (memory_limit div 3) files = Inr (runs, files1)"
    by (simp add: generate_runs_def)
  from generate_runs_frontier [OF g, of 1] rd
  have fr: "frontier files1 runs (map sort rs) 1" by auto
  from read_numbers_and_divide_spec [OF rd] p have "map Inr (concat rs) = (map Inr records :: (error + int) list)"
    by auto
  then have c: "concat rs = records"
    by (simp add: inj_map_eq_map [OF inj_Inr])
  with ne have "rs \<noteq> []" by auto
  moreover from fr have "length runs = length rs"
    by (auto simp: frontier_def dest: list_all2_lengthD)
  ultimately have rne: "runs \<noteq> []" by auto
  from f c have af: "all_fit block_size (map sort rs)" by (simp add: all_fit_sorted_runs)
  from merge_runs_spec [OF fr rne K, of "''output2.txt''"] af
  obtain files' where m: "merge_runs runs ''output2.txt'' memory_limit block_size files1 = Some (Inr files')"
    and o: "files' ''output2.txt'' = Some (write_lines (sort (concat (map sort rs))))"
    by (auto split: option.splits sum.splits)
  from g m have "external_merge_sort lines memory_limit block_size files = Some (Inr files')"
    by (simp add: external_merge_sort_def)
  with o c show "\<exists>files' out. external_merge_sort lines memory_limit block_size files = Some (Inr files') \<and>
         files' ''output2.txt'' = Some (write_lines out) \<and> sorted out \<and> mset out = mset records"
    by (intro exI [of _ files'] exI [of _ "sort records"]) (simp add: sort_concat_sorted_runs)
qed

text \<open>Six records, runs of one record each (a budget of 40 bytes), fan-in 12.\<close>

theorem ems_sorts_witness:
  "\<exists>files' out. external_merge_sort [''5'', ''3'', ''8'', ''1'', ''9'', ''2''] 120 10 Map.empty
        = Some (Inr files') \<and>
      files' ''output2.txt'' = Some (write_lines out) \<and> sorted out \<and>
      mset out = mset [5, 3, 8, 1, 9, 2]"
proof -
  have p: "parse_input [''5'', ''3'', ''8'', ''1'', ''9'', ''2''] = map Inr [5, 3, 8, 1, 9, 2]"
    by code_simp
  have f: "\<forall>x\<in>set [5, 3, 8, 1, 9, 2]. fits 10 x" by code_simp
  have k: "(2::int) \<le> 120 div 10" by simp
  from ems_sorts [of "[''5'', ''3'', ''8'', ''1'', ''9'', ''2'']" 120 10 Map.empty _
      "[5, 3, 8, 1, 9, 2]"] p f k
  show ?thesis by blast
qed

text \<open>
  C2. The claim: for the empty input, run generation yields no run and the scheduler
  completes with an empty output. Run generation does yield no run and the loop of the
  scheduler makes no pass, but \<^verbatim>\<open>os.rename(runs[0], output_file_path)\<close> then indexes
  the empty list: the call raises \<^verbatim>\<open>IndexError\<close> (\<^verbatim>\<open>ZeroDivisionError\<close> for a
  block size of 0) and writes no output.
\<close>

theorem empty_input_fails:
  "read_numbers_and_divide [] (memory_limit div 3) = Inr [] \<and>
   generate_runs [] (memory_limit div 3) files = Inr ([], files) \<and>
   merge_runs_loop (memory_limit div block_size) block_size [] 1 files = Some (Inr ([], 1, files)) \<and>
   external_merge_sort [] memory_limit block_size files
     = Some (Inl (if block_size = 0 then ZeroDivisionError else IndexError))"
proof -
  have r: "read_numbers_and_divide [] (memory_limit div 3) = Inr []"
    by (simp add: read_numbers_and_divide_def)
  then have g: "generate_runs [] (memory_limit div 3) files = Inr ([], files)"
    by (simp add: generate_runs_def)
  have l: "merge_runs_loop (memory_limit div block_size) block_size [] 1 files
      = Some (Inr ([], 1, files))"
    by (subst merge_runs_loop.simps) simp
  from g have "external_merge_sort [] memory_limit block_size files
     = Some (Inl (if block_size = 0 then ZeroDivisionError else IndexError))"
    by (simp add: external_merge_sort_def merge_runs_empty)
  with r g l show ?thesis by simp
qed

text \<open>The constants of \<^verbatim>\<open>main\<close>: a budget of 100 MiB and blocks of 512 bytes.\<close>

theorem empty_input_fails_witness:
  "external_merge_sort [] (100 * 1024 * 1024) 512 Map.empty = Some (Inl IndexError)"
  using empty_input_fails [of "100 * 1024 * 1024" Map.empty 512] by simp

text \<open>
  C7. When run generation yields the single run \<open>records\<close> and the input is sorted,
  the loop of the scheduler returns its variables as they were, with the counter still
  at 1 (no pass), the run file is renamed to the output, and the output is the text of
  the input records in their order. This holds for every fan-in, also below 2, and for
  every block size but 0, for which \<^verbatim>\<open>memory_limit // block_size\<close> raises before
  the loop.
\<close>

theorem presorted_single_run:
  assumes "read_numbers_and_divide lines (memory_limit div 3) = Inr [records]"
    and "sorted records" and "block_size \<noteq> 0"
  shows "parse_input lines = map Inr records \<and>
     generate_runs lines (memory_limit div 3) files
       = Inr ([''run1.txt''], files(''run1.txt'' \<mapsto> write_lines records)) \<and>
     merge_runs_loop (memory_limit div block_size) block_size [''run1.txt''] 1
         (files(''run1.txt'' \<mapsto> write_lines records))
       = Some (Inr ([''run1.txt''], 1, files(''run1.txt'' \<mapsto> write_lines records))) \<and>
     external_merge_sort lines memory_limit block_size files
       = Some (Inr ((files(''run1.txt'' := None))(''output2.txt'' \<mapsto> write_lines records)))"
proof -
  let ?files1 = "files(''run1.txt'' \<mapsto> write_lines records)"
  from read_numbers_and_divide_spec [OF assms(1)] have p: "parse_input lines = map Inr records"
    by auto
  from assms(1,2) have g: "generate_runs lines (memory_limit div 3) files = Inr ([''run1.txt''], ?files1)"
    by (simp add: generate_runs_def create_run_file_def run_filename_1 sorted_sort_id)
  have l: "merge_runs_loop (memory_limit div block_size) block_size [''run1.txt''] 1 ?files1
      = Some (Inr ([''run1.txt''], 1, ?files1))"
    by (subst merge_runs_loop.simps) simp
  have "merge_runs [''run1.txt''] ''output2.txt'' memory_limit block_size ?files1
      = Some (Inr ((?files1(''run1.txt'' := None))(''output2.txt'' \<mapsto> write_lines records)))"
    by (rule merge_runs_single) (simp_all add: assms(3))
  with g have "external_merge_sort lines memory_limit block_size files
       = Some (Inr ((files(''run1.txt'' := None))(''output2.txt'' \<mapsto> write_lines records)))"
    by (simp add: external_merge_sort_def)
  with p g l show ?thesis by simp
qed

text \<open>Three sorted records, a budget that holds them, and a fan-in of 0.\<close>

theorem presorted_single_run_witness:
  "parse_input [''1'', ''2'', ''5''] = map Inr [1, 2, 5] \<and>
   generate_runs [''1'', ''2'', ''5''] (360 div 3) Map.empty
       = Inr ([''run1.txt''], [''run1.txt'' \<mapsto> write_lines [1, 2, 5]]) \<and>
   merge_runs_loop (360 div 512) 512 [''run1.txt''] 1 [''run1.txt'' \<mapsto> write_lines [1, 2, 5]]
       = Some (Inr ([''run1.txt''], 1, [''run1.txt'' \<mapsto> write_lines [1, 2, 5]])) \<and>
   external_merge_sort [''1'', ''2'', ''5''] 360 512 Map.empty
       = Some (Inr ((Map.empty(''run1.txt'' := None))(''output2.txt'' \<mapsto> write_lines [1, 2, 5])))"
proof -
  have r: "read_numbers_and_divide [''1'', ''2'', ''5''] (360 div 3) = Inr [[1, 2, 5]]"
    by code_simp
  have s: "sorted [1, 2, 5 :: int]" by simp
  have b: "(512 :: int) \<noteq> 0" by simp
  from presorted_single_run [OF r s b, of Map.empty] show ?thesis .
qed

subsection \<open>The block reader\<close>

text \<open>
  C3. The claim: for a run with a record whose line is longer than the block size, the
  block reader fails with \<^verbatim>\<open>OversizedRecordError\<close>, never loops and never
  truncates. The program has no such error. What it does, for a block size \<open>S > 0\<close>
  and a reader whose cursor stands at a record whose line, newline included, is longer
  than \<open>S\<close>: \<^verbatim>\<open>next\<close> raises nothing, yields the empty block and leaves the cursor
  where it was, so that the reader on its own yields empty blocks forever; no part of
  the record is ever yielded. The merger pops the first number of the decoded block
  without a check and so fails with \<^verbatim>\<open>IndexError\<close>, in the seeding loop when the
  record is the first of its run and in the merge loop otherwise.
\<close>

theorem oversized_record_stalls:
  assumes "drop pos content = write_lines (z # zs)" and "0 < block_size"
    and "\<not> fits block_size z"
  shows "read_blocks_next block_size (content, pos) = Some ([], (content, pos)) \<and>
         read_blocks block_size (content, pos) = None \<and>
         (pos = 0 \<and> files run_file = Some content \<longrightarrow>
            seed_loop files block_size (run_file # rest) index st = Inl IndexError) \<and>
         (heap st = (smallest, run_index) # h \<and>
          run_index < length (current_blocks st) \<and> current_blocks st ! run_index = [] \<and>
          run_index < length (readers st) \<and> readers st ! run_index = (content, pos) \<longrightarrow>
            merge_step block_size st = Inl IndexError)"
proof -
  have s: "read_blocks_next block_size (content, pos) = Some ([], (content, pos))"
    using assms by (rule read_blocks_next_stall)
  then have "read_blocks block_size (content, pos) = None"
    by (rule read_blocks_stall)
  moreover have "seed_loop files block_size (run_file # rest) index st = Inl IndexError"
    if "pos = 0" "files run_file = Some content"
    using that s by (simp add: decode_block_Nil)
  moreover have "merge_step block_size st = Inl IndexError"
    if "heap st = (smallest, run_index) # h" "run_index < length (current_blocks st)"
      "current_blocks st ! run_index = []" "run_index < length (readers st)"
      "readers st ! run_index = (content, pos)"
    using that s by (simp add: merge_step_def Let_def decode_block_Nil)
  ultimately show ?thesis using s by blast
qed

text \<open>
  The run \<open>7, 12, 5\<close> read in blocks of 2 characters: the reader stalls at the
  record \<open>12\<close>, whose line has 3 characters, and a merger that has consumed the
  \<open>7\<close> fails at its next step. A run file that starts with \<open>12\<close> fails the seeding.
\<close>

theorem oversized_record_stalls_witness:
  "read_blocks_next 2 (write_lines [7, 12, 5], 2) = Some ([], (write_lines [7, 12, 5], 2)) \<and>
   read_blocks 2 (write_lines [7, 12, 5], 2) = None \<and>
   merge_step 2 \<lparr>readers = [(write_lines [7, 12, 5], 2)], current_blocks = [[]],
                  heap = [(7, 0)], emitted = []\<rparr> = Inl IndexError \<and>
   seed_loop [''run1.txt'' \<mapsto> write_lines [12, 5]] 2 [''run1.txt''] 0
      \<lparr>readers = [], current_blocks = [], heap = [], emitted = []\<rparr> = Inl IndexError"
proof -
  define st :: merge_state where
    "st = \<lparr>readers = [(write_lines [7, 12, 5], 2)], current_blocks = [[]],
           heap = [(7, 0)], emitted = []\<rparr>"
  define st0 :: merge_state where
    "st0 = \<lparr>readers = [], current_blocks = [], heap = [], emitted = []\<rparr>"
  define files :: fs where "files = [''run1.txt'' \<mapsto> write_lines [12, 5]]"
  have d: "drop 2 (write_lines [7, 12, 5]) = write_lines [12, 5]" by code_simp
  have d0: "drop 0 (write_lines [12, 5]) = write_lines [12, 5]" by simp
  have nf: "\<not> fits 2 12" by code_simp
  have p: "(0::int) < 2" by simp
  have pre: "heap st = (7, 0) # [] \<and> 0 < length (current_blocks st) \<and>
      current_blocks st ! 0 = [] \<and> 0 < length (readers st) \<and>
      readers st ! 0 = (write_lines [7, 12, 5], 2)"
    by (simp add: st_def)
  have pre0: "(0::nat) = 0 \<and> files ''run1.txt'' = Some (write_lines [12, 5])"
    by (simp add: files_def)
  from oversized_record_stalls [OF d p nf, of files "''run1.txt''" "[]" 0 st 7 0 "[]"] pre
  have a: "read_blocks_next 2 (write_lines [7, 12, 5], 2) = Some ([], (write_lines [7, 12, 5], 2))"
    and b: "read_blocks 2 (write_lines [7, 12, 5], 2) = None"
    and c: "merge_step 2 st = Inl IndexError"
    by blast+
  from oversized_record_stalls [OF d0 p nf, of files "''run1.txt''" "[]" 0 st0 7 0 "[]"] pre0
  have e: "seed_loop files 2 [''run1.txt''] 0 st0 = Inl IndexError"
    by blast
  from a b c e show ?thesis
    unfolding st_def st0_def files_def by blast
qed

text \<open>
  The claim fails on the run \<open>12, 7\<close> read in blocks of 2 characters: the reader
  raises nothing, it yields the empty block and stays at the start of the file.
\<close>

theorem oversized_record_counterexample:
  "read_blocks_next 2 (write_lines [12, 7], 0) = Some ([], (write_lines [12, 7], 0))"
  by code_simp




subsection \<open>Run generation\<close>

text \<open>
  C5. For input lines that are all numbers, \<^verbatim>\<open>read_numbers_and_divide\<close> cuts the
  records, in order, into non-empty runs \<open>rs\<close> (so every record is in exactly one
  run); each run has at most \<open>B\<close> bytes at \<open>NUMBER_SIZE = 40\<close> bytes a record, or
  is a single record; \<^verbatim>\<open>generate_runs\<close> writes each run, sorted, to a file of its
  own. With a budget below the size of one record every record is a run by itself.
\<close>

theorem run_generation:
  assumes "parse_input lines = map Inr records"
  shows "\<exists>rs names files'.
      read_numbers_and_divide lines B = Inr rs \<and> concat rs = records \<and>
      generate_runs lines B files = Inr (names, files') \<and>
      length names = length rs \<and> distinct names \<and>
      (\<forall>i<length rs. rs ! i \<noteq> [] \<and>
          (NUMBER_SIZE * int (length (rs ! i)) \<le> B \<or> length (rs ! i) = 1) \<and>
          (\<exists>run. files' (names ! i) = Some (write_lines run) \<and> sorted run \<and>
                 mset run = mset (rs ! i))) \<and>
      (B < NUMBER_SIZE \<longrightarrow> rs = map (\<lambda>x. [x]) records)"
proof -
  from divide_loop_total [OF assms] obtain rs where
    rd: "read_numbers_and_divide lines B = Inr rs"
    unfolding read_numbers_and_divide_def by blast
  obtain names files' where gl: "generate_runs_loop rs 1 files = (names, files')"
    by (cases "generate_runs_loop rs 1 files")
  with rd have g: "generate_runs lines B files = Inr (names, files')"
    by (simp add: generate_runs_def)
  from read_numbers_and_divide_spec [OF rd] assms
  have "map Inr (concat rs) = (map Inr records :: (error + int) list)"
    and ne: "[] \<notin> set rs" and rb: "\<forall>r\<in>set rs. run_bound B r" by auto
  then have c: "concat rs = records" by (simp add: inj_map_eq_map [OF inj_Inr])
  from generate_runs_frontier [OF g, of 1] rd
  have fr: "frontier files' names (map sort rs) 1" by auto
  then have la: "list_all2 (run_file_of files') names (map sort rs)" and d: "distinct names"
    by (auto simp: frontier_def)
  from la have len: "length names = length rs" by (auto dest: list_all2_lengthD)
  have each: "rs ! i \<noteq> [] \<and>
          (NUMBER_SIZE * int (length (rs ! i)) \<le> B \<or> length (rs ! i) = 1) \<and>
          (\<exists>run. files' (names ! i) = Some (write_lines run) \<and> sorted run \<and>
                 mset run = mset (rs ! i))" if i: "i < length rs" for i
  proof -
    from i have m: "rs ! i \<in> set rs" by simp
    from la i len have "run_file_of files' (names ! i) (sort (rs ! i))"
      by (auto simp: list_all2_conv_all_nth)
    then have "files' (names ! i) = Some (write_lines (sort (rs ! i)))"
      by (simp add: run_file_of_def)
    then have "\<exists>run. files' (names ! i) = Some (write_lines run) \<and> sorted run \<and>
                 mset run = mset (rs ! i)"
      by (intro exI [of _ "sort (rs ! i)"]) simp
    with m ne rb show ?thesis by (auto simp: run_bound_def)
  qed
  have lone: "rs = map (\<lambda>x. [x]) records" if "B < NUMBER_SIZE"
  proof -
    have "\<forall>r\<in>set rs. length r = 1"
    proof
      fix r assume r: "r \<in> set rs"
      with ne have "r \<noteq> []" by auto
      then have "1 \<le> int (length r)" by (cases r) auto
      with that have "\<not> NUMBER_SIZE * int (length r) \<le> B"
        by (simp add: NUMBER_SIZE_def)
      with r rb show "length r = 1"
        by (auto simp: run_bound_def)
    qed
    from singleton_runs [OF this] c show ?thesis by simp
  qed
  from rd c g len d each lone show ?thesis by blast
qed

text \<open>Five records and a budget of 80 bytes: the runs \<open>5 3\<close>, \<open>8 1\<close> and \<open>9\<close>.\<close>

theorem run_generation_witness:
  "\<exists>rs names files'.
      read_numbers_and_divide [''5'', ''3'', ''8'', ''1'', ''9''] 80 = Inr rs \<and>
      concat rs = [5, 3, 8, 1, 9] \<and>
      generate_runs [''5'', ''3'', ''8'', ''1'', ''9''] 80 Map.empty = Inr (names, files') \<and>
      length names = length rs \<and> distinct names \<and>
      (\<forall>i<length rs. rs ! i \<noteq> [] \<and>
          (NUMBER_SIZE * int (length (rs ! i)) \<le> 80 \<or> length (rs ! i) = 1) \<and>
          (\<exists>run. files' (names ! i) = Some (write_lines run) \<and> sorted run \<and>
                 mset run = mset (rs ! i)))"
proof -
  have p: "parse_input [''5'', ''3'', ''8'', ''1'', ''9''] = map Inr [5, 3, 8, 1, 9]"
    by code_simp
  from run_generation [OF p, of 80 Map.empty] show ?thesis by blast
qed

subsection \<open>The scheduler\<close>

text \<open>
  C6. The fan-in is \<open>K = memory_limit div block_size\<close>, the floor division of
  Python. Take any pass of the scheduler: any run list, counter and directory, with
  \<open>starts\<close> the list \<^verbatim>\<open>range(0, len(runs), K)\<close>. Every slice
  \<^verbatim>\<open>runs[i:i + K]\<close> for \<open>i\<close> in \<open>starts\<close> is non-empty and has at most \<open>K\<close>
  runs. The pass is a chain of calls of \<^verbatim>\<open>merge_K_runs\<close>, the \<open>j\<close>-th of
  them on the slice at \<open>starts ! j\<close> and on the directory the call before it left:
  either every slice is merged, the new runs are the outputs of these calls in order
  and the pass ends by removing the old runs; or the calls succeed up to a slice on
  which \<^verbatim>\<open>merge_K_runs\<close> fails, and the pass fails with its error. So every call of
  the merger in a pass is on one slice, of at most \<open>K\<close> runs. Whenever the loop of
  \<^verbatim>\<open>merge_runs\<close> returns, what it returns is reached by passes that all have
  this fan-in \<open>K\<close>: the state at the exit, with at most one run, or the error of a
  failed pass. \<^verbatim>\<open>merge_runs\<close> runs the loop with
  \<open>K = memory_limit div block_size\<close>, and \<^verbatim>\<open>external_merge_sort\<close> generates the
  runs with a third of the budget, \<open>memory_limit div 3\<close>, and merges them with the
  whole of it.
\<close>

theorem fan_in_bound:
  "(py_range (length runs) (memory_limit div block_size) = Inr starts \<longrightarrow>
      (\<forall>i\<in>set starts.
         fst (batch runs (memory_limit div block_size) it i)
           = take (nat (memory_limit div block_size)) (drop i runs) \<and>
         take (nat (memory_limit div block_size)) (drop i runs) \<noteq> [] \<and>
         int (length (take (nat (memory_limit div block_size)) (drop i runs)))
           \<le> memory_limit div block_size) \<and>
      (\<exists>n dirs news.
         n \<le> length starts \<and> length dirs = Suc n \<and> length news = n \<and> dirs ! 0 = files \<and>
         (\<forall>j<n. merge_K_runs (take (nat (memory_limit div block_size)) (drop (starts ! j) runs))
                   block_size
                   (batch_identifier it (int (starts ! j) div (memory_limit div block_size) + 1))
                   (dirs ! j)
                 = Inr (news ! j, dirs ! Suc j)) \<and>
         (if n = length starts
          then merge_pass (memory_limit div block_size) block_size runs it files =
                 (case remove_all runs (dirs ! n) of
                    Inl e \<Rightarrow> Inl e
                  | Inr files2 \<Rightarrow> Inr (news, files2))
          else \<exists>e. merge_K_runs (take (nat (memory_limit div block_size)) (drop (starts ! n) runs))
                      block_size
                      (batch_identifier it (int (starts ! n) div (memory_limit div block_size) + 1))
                      (dirs ! n)
                    = Inl e \<and>
                   merge_pass (memory_limit div block_size) block_size runs it files = Inl e))) \<and>
   (merge_runs_loop (memory_limit div block_size) block_size runs it files = Some y \<longrightarrow>
      (case y of
         Inl e \<Rightarrow>
           \<exists>runs1 it1 files1.
             passes (memory_limit div block_size) block_size (runs, it, files) (runs1, it1, files1) \<and>
             1 < length runs1 \<and>
             merge_pass (memory_limit div block_size) block_size runs1 it1 files1 = Inl e
       | Inr st \<Rightarrow>
           passes (memory_limit div block_size) block_size (runs, it, files) st \<and>
           length (fst st) \<le> 1)) \<and>
   merge_pass (memory_limit div block_size) block_size runs it files =
     (case py_range (length runs) (memory_limit div block_size) of
        Inl e \<Rightarrow> Inl e
      | Inr starts \<Rightarrow>
          (case merge_batches block_size
                  (map (batch runs (memory_limit div block_size) it) starts) files of
             Inl e \<Rightarrow> Inl e
           | Inr (new_runs, files1) \<Rightarrow>
               (case remove_all runs files1 of
                  Inl e \<Rightarrow> Inl e
                | Inr files2 \<Rightarrow> Inr (new_runs, files2)))) \<and>
   merge_runs runs output_file_path memory_limit block_size files =
     (if block_size = 0 then Some (Inl ZeroDivisionError)
      else (case merge_runs_loop (memory_limit div block_size) block_size runs 1 files of
              None \<Rightarrow> None
            | Some (Inl e) \<Rightarrow> Some (Inl e)
            | Some (Inr (runs1, iteration, files1)) \<Rightarrow>
                (case runs1 of
                   [] \<Rightarrow> Some (Inl IndexError)
                 | run # _ \<Rightarrow> Some (os_rename run output_file_path files1)))) \<and>
   external_merge_sort lines memory_limit block_size files =
     (case generate_runs lines (memory_limit div 3) files of
        Inl e \<Rightarrow> Some (Inl e)
      | Inr (runs, files1) \<Rightarrow> merge_runs runs ''output2.txt'' memory_limit block_size files1)"
proof -
  let ?K = "memory_limit div block_size"
  let ?slice = "\<lambda>i. take (nat ?K) (drop i runs)"
  let ?ident = "\<lambda>i. batch_identifier it (int i div ?K + 1)"
  have a: "fst (batch runs ?K it i) = ?slice i \<and> ?slice i \<noteq> [] \<and> int (length (?slice i)) \<le> ?K"
    if r: "py_range (length runs) ?K = Inr starts" and i: "i \<in> set starts" for i
  proof -
    from r i have K: "0 < ?K"
      by (auto simp: py_range_def split: if_splits)
    with r i obtain j where j: "j < (length runs + nat ?K - 1) div nat ?K" and ij: "i = j * nat ?K"
      by (auto simp: py_range_def)
    from K have k: "0 < nat ?K" by simp
    from chunk_start_less [OF k j] ij have "i < length runs" by simp
    then have "drop i runs \<noteq> []" by simp
    with k have "take (nat ?K) (drop i runs) \<noteq> []" by (cases "drop i runs") auto
    moreover have "int (length (take (nat ?K) (drop i runs))) \<le> ?K" using K by simp
    ultimately show ?thesis by (simp add: batch_def)
  qed
  have b: "merge_pass ?K block_size runs it files =
     (case py_range (length runs) ?K of
        Inl e \<Rightarrow> Inl e
      | Inr starts \<Rightarrow>
          (case merge_batches block_size (map (batch runs ?K it) starts) files of
             Inl e \<Rightarrow> Inl e
           | Inr (new_runs, files1) \<Rightarrow>
               (case remove_all runs files1 of
                  Inl e \<Rightarrow> Inl e
                | Inr files2 \<Rightarrow> Inr (new_runs, files2))))"
    by (simp only: merge_pass_def)
  have calls: "\<exists>n dirs news.
         n \<le> length starts \<and> length dirs = Suc n \<and> length news = n \<and> dirs ! 0 = files \<and>
         (\<forall>j<n. merge_K_runs (?slice (starts ! j)) block_size (?ident (starts ! j)) (dirs ! j)
                 = Inr (news ! j, dirs ! Suc j)) \<and>
         (if n = length starts
          then merge_pass ?K block_size runs it files =
                 (case remove_all runs (dirs ! n) of
                    Inl e \<Rightarrow> Inl e
                  | Inr files2 \<Rightarrow> Inr (news, files2))
          else \<exists>e. merge_K_runs (?slice (starts ! n)) block_size (?ident (starts ! n)) (dirs ! n)
                    = Inl e \<and>
                   merge_pass ?K block_size runs it files = Inl e)"
    if r: "py_range (length runs) ?K = Inr starts"
  proof -
    let ?bl = "map (batch runs ?K it) starts"
    from merge_batches_calls [of ?bl files block_size] obtain n dirs news where
      n: "n \<le> length starts" and ld: "length dirs = Suc n" and ln: "length news = n"
      and d0: "dirs ! 0 = files"
      and c: "\<forall>j<n. merge_K_runs (fst (?bl ! j)) block_size (snd (?bl ! j)) (dirs ! j)
               = Inr (news ! j, dirs ! Suc j)"
      and fin: "if n = length ?bl then merge_batches block_size ?bl files = Inr (news, dirs ! n)
        else \<exists>e. merge_K_runs (fst (?bl ! n)) block_size (snd (?bl ! n)) (dirs ! n) = Inl e \<and>
               merge_batches block_size ?bl files = Inl e"
      by auto
    have nth: "fst (?bl ! j) = ?slice (starts ! j) \<and> snd (?bl ! j) = ?ident (starts ! j)"
      if "j < length starts" for j
      using that by (simp add: batch_def)
    from c n have c': "\<forall>j<n. merge_K_runs (?slice (starts ! j)) block_size (?ident (starts ! j)) (dirs ! j)
                 = Inr (news ! j, dirs ! Suc j)"
      using nth by auto
    have fin': "if n = length starts
          then merge_pass ?K block_size runs it files =
                 (case remove_all runs (dirs ! n) of
                    Inl e \<Rightarrow> Inl e
                  | Inr files2 \<Rightarrow> Inr (news, files2))
          else \<exists>e. merge_K_runs (?slice (starts ! n)) block_size (?ident (starts ! n)) (dirs ! n)
                    = Inl e \<and>
                   merge_pass ?K block_size runs it files = Inl e"
    proof (cases "n = length starts")
      case True
      with fin have "merge_batches block_size ?bl files = Inr (news, dirs ! n)" by simp
      with r True show ?thesis by (simp add: merge_pass_def)
    next
      case False
      with n have lt: "n < length starts" by simp
      from fin False obtain e where
        "merge_K_runs (fst (?bl ! n)) block_size (snd (?bl ! n)) (dirs ! n) = Inl e"
        "merge_batches block_size ?bl files = Inl e"
        by auto
      with nth [OF lt] r have
        "merge_K_runs (?slice (starts ! n)) block_size (?ident (starts ! n)) (dirs ! n) = Inl e \<and>
         merge_pass ?K block_size runs it files = Inl e"
        by (simp add: merge_pass_def)
      with False show ?thesis by auto
    qed
    from n ld ln d0 c' fin' show ?thesis by blast
  qed
  have l: "case y of
         Inl e \<Rightarrow>
           \<exists>runs1 it1 files1.
             passes ?K block_size (runs, it, files) (runs1, it1, files1) \<and>
             1 < length runs1 \<and> merge_pass ?K block_size runs1 it1 files1 = Inl e
       | Inr st \<Rightarrow> passes ?K block_size (runs, it, files) st \<and> length (fst st) \<le> 1"
    if "merge_runs_loop ?K block_size runs it files = Some y"
    using that by (rule merge_runs_loop_passes)
  have c: "merge_runs runs output_file_path memory_limit block_size files =
     (if block_size = 0 then Some (Inl ZeroDivisionError)
      else (case merge_runs_loop ?K block_size runs 1 files of
              None \<Rightarrow> None
            | Some (Inl e) \<Rightarrow> Some (Inl e)
            | Some (Inr (runs1, iteration, files1)) \<Rightarrow>
                (case runs1 of
                   [] \<Rightarrow> Some (Inl IndexError)
                 | run # _ \<Rightarrow> Some (os_rename run output_file_path files1))))"
    by (simp only: merge_runs_def)
  have d: "external_merge_sort lines memory_limit block_size files =
     (case generate_runs lines (memory_limit div 3) files of
        Inl e \<Rightarrow> Some (Inl e)
      | Inr (runs, files1) \<Rightarrow> merge_runs runs ''output2.txt'' memory_limit block_size files1)"
    by (simp only: external_merge_sort_def Let_def)
  show ?thesis
  proof (intro conjI impI)
    assume r: "py_range (length runs) ?K = Inr starts"
    show "\<forall>i\<in>set starts. fst (batch runs ?K it i) = ?slice i \<and> ?slice i \<noteq> [] \<and>
        int (length (?slice i)) \<le> ?K"
      using a [OF r] by blast
    show "\<exists>n dirs news.
         n \<le> length starts \<and> length dirs = Suc n \<and> length news = n \<and> dirs ! 0 = files \<and>
         (\<forall>j<n. merge_K_runs (?slice (starts ! j)) block_size (?ident (starts ! j)) (dirs ! j)
                 = Inr (news ! j, dirs ! Suc j)) \<and>
         (if n = length starts
          then merge_pass ?K block_size runs it files =
                 (case remove_all runs (dirs ! n) of
                    Inl e \<Rightarrow> Inl e
                  | Inr files2 \<Rightarrow> Inr (news, files2))
          else \<exists>e. merge_K_runs (?slice (starts ! n)) block_size (?ident (starts ! n)) (dirs ! n)
                    = Inl e \<and>
                   merge_pass ?K block_size runs it files = Inl e)"
      by (rule calls [OF r])
  next
    assume "merge_runs_loop ?K block_size runs it files = Some y"
    then show "case y of
         Inl e \<Rightarrow>
           \<exists>runs1 it1 files1.
             passes ?K block_size (runs, it, files) (runs1, it1, files1) \<and>
             1 < length runs1 \<and> merge_pass ?K block_size runs1 it1 files1 = Inl e
       | Inr st \<Rightarrow> passes ?K block_size (runs, it, files) st \<and> length (fst st) \<le> 1"
      by (rule l)
  next
    show "merge_pass ?K block_size runs it files =
     (case py_range (length runs) ?K of
        Inl e \<Rightarrow> Inl e
      | Inr starts \<Rightarrow>
          (case merge_batches block_size (map (batch runs ?K it) starts) files of
             Inl e \<Rightarrow> Inl e
           | Inr (new_runs, files1) \<Rightarrow>
               (case remove_all runs files1 of
                  Inl e \<Rightarrow> Inl e
                | Inr files2 \<Rightarrow> Inr (new_runs, files2))))"
      by (rule b)
  next
    show "merge_runs runs output_file_path memory_limit block_size files =
     (if block_size = 0 then Some (Inl ZeroDivisionError)
      else (case merge_runs_loop ?K block_size runs 1 files of
              None \<Rightarrow> None
            | Some (Inl e) \<Rightarrow> Some (Inl e)
            | Some (Inr (runs1, iteration, files1)) \<Rightarrow>
                (case runs1 of
                   [] \<Rightarrow> Some (Inl IndexError)
                 | run # _ \<Rightarrow> Some (os_rename run output_file_path files1))))"
      by (rule c)
  next
    show "external_merge_sort lines memory_limit block_size files =
     (case generate_runs lines (memory_limit div 3) files of
        Inl e \<Rightarrow> Some (Inl e)
      | Inr (runs, files1) \<Rightarrow> merge_runs runs ''output2.txt'' memory_limit block_size files1)"
      by (rule d)
  qed
qed

text \<open>
  The two run files of the examples, a budget of 4 and blocks of 2 characters: the
  fan-in is 2, the pass makes one call, on both runs, and the loop ends after it.
\<close>

theorem fan_in_bound_witness:
  "py_range (length [run_filename 1, run_filename 2]) (4 div 2) = Inr [0] \<and>
   (\<exists>name files1.
      merge_K_runs [run_filename 1, run_filename 2] 2 (batch_identifier 1 1) two_runs
        = Inr (name, files1) \<and>
      merge_pass (4 div 2) 2 [run_filename 1, run_filename 2] 1 two_runs =
        (case remove_all [run_filename 1, run_filename 2] files1 of
           Inl e \<Rightarrow> Inl e
         | Inr files2 \<Rightarrow> Inr ([name], files2))) \<and>
   (\<exists>st. merge_runs_loop (4 div 2) 2 [run_filename 1, run_filename 2] 1 two_runs = Some (Inr st) \<and>
         passes (4 div 2) 2 ([run_filename 1, run_filename 2], 1, two_runs) st \<and>
         length (fst st) \<le> 1)"
proof -
  let ?runs = "[run_filename 1, run_filename 2]"
  have r: "py_range (length ?runs) (4 div 2) = Inr [0]"
    by code_simp
  have ok: "merge_K_runs ?runs 2 ident two_runs \<noteq> Inl e" for ident e
    using merge_K_runs_spec [OF two_runs_files, of 2 ident] two_runs_fit
    by (auto split: sum.splits)
  from merge_runs_loop_spec [OF two_runs_frontier [of 1], of 2 2] two_runs_fit
  obtain st where st: "merge_runs_loop 2 2 ?runs 1 two_runs = Some (Inr st)"
    by (auto split: option.splits sum.splits)
  then have st': "merge_runs_loop (4 div 2) 2 ?runs 1 two_runs = Some (Inr st)" by simp
  note t = fan_in_bound [of ?runs 4 2 "[0]" 1 two_runs "Inr st"]
  from t r obtain n dirs news where
    n: "n \<le> length [0::nat]" and ld: "length dirs = Suc n" and ln: "length news = n"
    and d0: "dirs ! 0 = two_runs"
    and c: "\<forall>j<n. merge_K_runs (take (nat (4 div 2)) (drop ([0] ! j) ?runs)) 2
                   (batch_identifier 1 (int ([0] ! j) div (4 div 2) + 1)) (dirs ! j)
                 = Inr (news ! j, dirs ! Suc j)"
    and fin: "if n = length [0::nat]
          then merge_pass (4 div 2) 2 ?runs 1 two_runs =
                 (case remove_all ?runs (dirs ! n) of
                    Inl e \<Rightarrow> Inl e
                  | Inr files2 \<Rightarrow> Inr (news, files2))
          else \<exists>e. merge_K_runs (take (nat (4 div 2)) (drop ([0] ! n) ?runs)) 2
                      (batch_identifier 1 (int ([0] ! n) div (4 div 2) + 1)) (dirs ! n)
                    = Inl e \<and>
                   merge_pass (4 div 2) 2 ?runs 1 two_runs = Inl e"
    by blast
  have n1: "n = 1"
  proof (rule ccontr)
    assume "n \<noteq> 1"
    with n have n0: "n = 0" by simp
    with fin d0 obtain e where "merge_K_runs ?runs 2 (batch_identifier 1 1) two_runs = Inl e"
      by auto
    with ok show False by blast
  qed
  from c n1 d0 have call: "merge_K_runs ?runs 2 (batch_identifier 1 1) two_runs
      = Inr (news ! 0, dirs ! 1)"
    by simp
  from ln n1 have news: "news = [news ! 0]" by (cases news) auto
  from fin n1 have "merge_pass (4 div 2) 2 ?runs 1 two_runs =
                 (case remove_all ?runs (dirs ! 1) of
                    Inl e \<Rightarrow> Inl e
                  | Inr files2 \<Rightarrow> Inr (news, files2))"
    by simp
  with news have pass: "merge_pass (4 div 2) 2 ?runs 1 two_runs =
                 (case remove_all ?runs (dirs ! 1) of
                    Inl e \<Rightarrow> Inl e
                  | Inr files2 \<Rightarrow> Inr ([news ! 0], files2))"
    by simp
  from t st' have loop: "passes (4 div 2) 2 (?runs, 1, two_runs) st \<and> length (fst st) \<le> 1"
    by simp
  from r call pass st' loop show ?thesis by blast
qed

text \<open>
  C9. For two or more runs, \<^verbatim>\<open>merge_runs\<close> returns a result only if the fan-in
  \<open>memory_limit div block_size\<close> is at least 2 (for every list of runs and every
  directory); and with a fan-in of at least 2 it does return, on run files whose lines
  are no longer than a block. With a fan-in of 1 a pass on such run files merges each
  run alone into a new file with the same contents, the frontier keeps its length, and
  \<^verbatim>\<open>merge_runs\<close> never returns. With a fan-in of 0, as for
  \<open>0 \<le> memory_limit < block_size\<close>, the first pass raises \<^verbatim>\<open>ValueError\<close>, the
  error of \<^verbatim>\<open>range\<close> for a step of 0.
\<close>

theorem fan_in_termination:
  "(2 \<le> length runs \<and>
      merge_runs runs output_file_path memory_limit block_size files = Some (Inr files') \<longrightarrow>
        2 \<le> memory_limit div block_size) \<and>
   (frontier files runs xss 1 \<and> 2 \<le> length runs \<and> all_fit block_size xss \<and>
      2 \<le> memory_limit div block_size \<longrightarrow>
        (\<exists>files'. merge_runs runs output_file_path memory_limit block_size files = Some (Inr files'))) \<and>
   (frontier files runs xss it \<and> block_size \<noteq> 0 \<and> all_fit block_size xss \<longrightarrow>
        (\<exists>new_runs files'. merge_pass 1 block_size runs it files = Inr (new_runs, files') \<and>
           length new_runs = length runs \<and> map files' new_runs = map files runs \<and>
           frontier files' new_runs xss (it + 1))) \<and>
   (frontier files runs xss 1 \<and> 2 \<le> length runs \<and> all_fit block_size xss \<and>
      memory_limit div block_size = 1 \<longrightarrow>
        merge_runs runs output_file_path memory_limit block_size files = None) \<and>
   (2 \<le> length runs \<and> block_size \<noteq> 0 \<and> memory_limit div block_size = 0 \<longrightarrow>
        merge_pass (memory_limit div block_size) block_size runs it files = Inl ValueError \<and>
        merge_runs runs output_file_path memory_limit block_size files = Some (Inl ValueError)) \<and>
   (2 \<le> length runs \<and> 0 \<le> memory_limit \<and> memory_limit < block_size \<longrightarrow>
        merge_runs runs output_file_path memory_limit block_size files = Some (Inl ValueError))"
proof -
  let ?K = "memory_limit div block_size"
  let ?mr = "merge_runs runs output_file_path memory_limit block_size files"
  have a: "2 \<le> ?K" if "2 \<le> length runs \<and> ?mr = Some (Inr files')"
    using that merge_runs_success_fan_in by blast
  have b: "\<exists>files'. ?mr = Some (Inr files')"
    if h: "frontier files runs xss 1 \<and> 2 \<le> length runs \<and> all_fit block_size xss \<and> 2 \<le> ?K"
  proof -
    from h have "runs \<noteq> []" by auto
    with merge_runs_spec [of files runs xss memory_limit block_size output_file_path] h
    show ?thesis by (auto split: option.splits sum.splits)
  qed
  have c: "\<exists>new_runs files'. merge_pass 1 block_size runs it files = Inr (new_runs, files') \<and>
           length new_runs = length runs \<and> map files' new_runs = map files runs \<and>
           frontier files' new_runs xss (it + 1)"
    if h: "frontier files runs xss it \<and> block_size \<noteq> 0 \<and> all_fit block_size xss"
  proof -
    from h merge_pass_one [of files runs xss it block_size]
    obtain new_runs files' where p: "merge_pass 1 block_size runs it files = Inr (new_runs, files')"
      and l: "length new_runs = length runs" and f: "frontier files' new_runs xss (it + 1)"
      by (cases "merge_pass 1 block_size runs it files") auto
    from h have "map files runs = map (\<lambda>xs. Some (write_lines xs)) xss"
      by (intro run_files_contents) (simp add: frontier_def)
    moreover from f have "map files' new_runs = map (\<lambda>xs. Some (write_lines xs)) xss"
      by (intro run_files_contents) (simp add: frontier_def)
    ultimately have "map files' new_runs = map files runs" by simp
    with p l f show ?thesis by blast
  qed
  have d: "?mr = None"
    if h: "frontier files runs xss 1 \<and> 2 \<le> length runs \<and> all_fit block_size xss \<and> ?K = 1"
  proof -
    from h have bs: "block_size \<noteq> 0" by auto
    have "merge_runs_loop ?K block_size runs 1 files = None"
    proof (cases "merge_runs_loop ?K block_size runs 1 files")
      case None
      then show ?thesis .
    next
      case (Some y)
      from merge_runs_loop_one_diverges [OF Some] h bs show ?thesis by blast
    qed
    with bs show ?thesis by (simp add: merge_runs_def)
  qed
  have e: "merge_pass ?K block_size runs it files = Inl ValueError \<and> ?mr = Some (Inl ValueError)"
    if h: "2 \<le> length runs \<and> block_size \<noteq> 0 \<and> ?K = 0"
  proof -
    from h have "merge_runs_loop ?K block_size runs 1 files = Some (Inl ValueError)"
      by (simp add: merge_runs_loop_zero)
    with h show ?thesis by (simp add: merge_runs_def merge_pass_zero)
  qed
  have f: "?mr = Some (Inl ValueError)"
    if h: "2 \<le> length runs \<and> 0 \<le> memory_limit \<and> memory_limit < block_size"
  proof -
    from h have "?K = 0" "block_size \<noteq> 0" by auto
    with e h show ?thesis by blast
  qed
  from a b c d e f show ?thesis by blast
qed

text \<open>
  The two run files \<open>3 5\<close> and \<open>3\<close> with blocks of 2 characters: a budget of 3
  (fan-in 1) never returns, a budget of 4 (fan-in 2) returns, a budget of 1 (fan-in 0)
  raises.
\<close>

theorem fan_in_termination_witness:
  "merge_runs [run_filename 1, run_filename 2] ''output2.txt'' 3 2 two_runs = None \<and>
   (\<exists>files'. merge_runs [run_filename 1, run_filename 2] ''output2.txt'' 4 2 two_runs
        = Some (Inr files')) \<and>
   merge_runs [run_filename 1, run_filename 2] ''output2.txt'' 1 2 two_runs = Some (Inl ValueError) \<and>
   (\<exists>new_runs files'. merge_pass 1 2 [run_filename 1, run_filename 2] 1 two_runs
        = Inr (new_runs, files') \<and>
      length new_runs = length [run_filename 1, run_filename 2] \<and>
      map files' new_runs = map two_runs [run_filename 1, run_filename 2])"
proof -
  note t = fan_in_termination [of "[run_filename 1, run_filename 2]" "''output2.txt''" _ 2 two_runs _
      "[[3, 5], [3]]" 1]
  have l: "2 \<le> length [run_filename 1, run_filename 2]" by simp
  have b: "(2::int) \<noteq> 0" by simp
  have "(3::int) div 2 = 1" by simp
  with t [of 3] two_runs_frontier [of 1] two_runs_fit l
  have 1: "merge_runs [run_filename 1, run_filename 2] ''output2.txt'' 3 2 two_runs = None"
    by blast
  have "(2::int) \<le> 4 div 2" by simp
  with t [of 4] two_runs_frontier [of 1] two_runs_fit l
  have 2: "\<exists>files'. merge_runs [run_filename 1, run_filename 2] ''output2.txt'' 4 2 two_runs
        = Some (Inr files')"
    by blast
  have "(0::int) \<le> 1 \<and> (1::int) < 2" by simp
  with t [of 1] l
  have 3: "merge_runs [run_filename 1, run_filename 2] ''output2.txt'' 1 2 two_runs
      = Some (Inl ValueError)"
    by blast
  from t [of 3] two_runs_frontier [of 1] two_runs_fit b
  have 4: "\<exists>new_runs files'. merge_pass 1 2 [run_filename 1, run_filename 2] 1 two_runs
        = Inr (new_runs, files') \<and> length new_runs = length [run_filename 1, run_filename 2] \<and>
      map files' new_runs = map two_runs [run_filename 1, run_filename 2]"
    by blast
  from 1 2 3 4 show ?thesis by blast
qed

subsection \<open>The merger\<close>

text \<open>
  C8. On run files (sorted, non-empty) whose lines are no longer than a block, the
  sequence of heap entries \<^verbatim>\<open>merge_K_runs\<close> pops is determined by the runs: it is
  the sorted list of all pairs (number, index of its run), in the order of Python's
  tuples, first by the number and then by the index. So the numbers written are
  non-decreasing, and of two equal numbers the one written first comes from the run
  with the smaller or the same index.
\<close>

theorem merge_order:
  assumes "list_all2 (run_file_of files) names xss" and "block_size \<noteq> 0"
    and "all_fit block_size xss"
  shows "\<exists>popped.
     merge_trace files names block_size = Inr popped \<and>
     merge_K_runs names block_size ident files =
       Inr (merged_filename ident, files(merged_filename ident \<mapsto> write_lines (map fst popped))) \<and>
     popped = sort (concat (map (\<lambda>i. map (\<lambda>x. (x, i)) (xss ! i)) [0..<length xss])) \<and>
     sorted (map fst popped) \<and>
     (\<forall>a b. a < b \<and> b < length popped \<and> fst (popped ! a) = fst (popped ! b) \<longrightarrow>
        snd (popped ! a) \<le> snd (popped ! b)) \<and>
     (\<forall>e h. set (heappush h e) = insert e (set h) \<and> (sorted h \<longrightarrow> sorted (heappush h e))) \<and>
     (\<forall>v i w j. ((v :: int, i :: nat) \<le> (w, j)) = (v < w \<or> (v = w \<and> i \<le> j)))"
proof -
  from merge_trace_inv [OF assms(1,2)] assms(3) obtain popped where
    t: "merge_trace files names block_size = Inr popped" and s: "sorted popped"
    and m: "mset popped = (\<Sum>i<length xss. tagged i (xss ! i))"
    by (cases "merge_trace files names block_size") auto
  from t have k: "merge_K_runs names block_size ident files =
       Inr (merged_filename ident, files(merged_filename ident \<mapsto> write_lines (map fst popped)))"
    by (simp add: merge_K_runs_def)
  from m have "mset popped = mset (concat (map (\<lambda>i. map (\<lambda>x. (x, i)) (xss ! i)) [0..<length xss]))"
    by (simp only: mset_concat_tagged)
  from properties_for_sort [OF this s]
  have p: "popped = sort (concat (map (\<lambda>i. map (\<lambda>x. (x, i)) (xss ! i)) [0..<length xss]))"
    by simp
  have f: "sorted (map fst popped)" using s by (rule sorted_map_fst)
  have ties: "\<forall>a b. a < b \<and> b < length popped \<and> fst (popped ! a) = fst (popped ! b) \<longrightarrow>
        snd (popped ! a) \<le> snd (popped ! b)"
    using sorted_pairs_ties [OF s] by blast
  have hp: "\<forall>e h. set (heappush h e) = insert e (set h) \<and> (sorted h \<longrightarrow> sorted (heappush h e))"
    by (simp add: heappush_def set_insort_key sorted_insort)
  have ord: "\<forall>v i w j. ((v :: int, i :: nat) \<le> (w, j)) = (v < w \<or> (v = w \<and> i \<le> j))"
    by (auto simp: less_eq_prod_def)
  from t k p f ties hp ord show ?thesis by blast
qed

text \<open>The runs \<open>3 5\<close> and \<open>3\<close>: the 3 of run 0 is written before the 3 of run 1.\<close>

theorem merge_order_witness:
  "merge_trace two_runs [run_filename 1, run_filename 2] 2 = Inr [(3, 0), (3, 1), (5, 0)]"
proof -
  have b: "(2::int) \<noteq> 0" by simp
  have "sort (concat (map (\<lambda>i. map (\<lambda>x. (x, i)) ([[3, 5], [3]] ! i)) [0..<length [[3::int, 5], [3]]]))
      = [(3 :: int, 0 :: nat), (3, 1), (5, 0)]"
    by code_simp
  with merge_order [OF two_runs_files b two_runs_fit] show ?thesis by auto
qed

text \<open>
  C10. The claim: every run file the generator or the merger creates has a record, and
  under that invariant the unchecked \<^verbatim>\<open>next\<close> and \<^verbatim>\<open>pop(0)\<close> of the seeding
  loop cannot fail anywhere in the pipeline. The first part holds. For the second, the
  \<^verbatim>\<open>next\<close> of the seeding loop never raises \<^verbatim>\<open>StopIteration\<close> on non-empty run
  files (as it does on an empty one), but \<^verbatim>\<open>pop(0)\<close> raises \<^verbatim>\<open>IndexError\<close> when the
  first line of a run is longer than a block, although the run is not empty. When
  every line is no longer than a block, neither the seeding loop nor the merge loop
  fails.
\<close>

theorem runs_nonempty:
  "(generate_runs lines memory_limit files = Inr (names, files') \<longrightarrow>
      (\<forall>name\<in>set names. \<exists>xs. files' name = Some (write_lines xs) \<and> xs \<noteq> [])) \<and>
   (list_all2 (run_file_of files) names xss \<and> names \<noteq> [] \<and> block_size \<noteq> 0 \<and>
    merge_K_runs names block_size ident files = Inr (out, files') \<longrightarrow>
      (\<exists>ys. files' out = Some (write_lines ys) \<and> ys \<noteq> [])) \<and>
   (list_all2 (run_file_of files) names xss \<and> block_size \<noteq> 0 \<longrightarrow>
      seed_loop files block_size names 0
          \<lparr>readers = [], current_blocks = [], heap = [], emitted = []\<rparr> \<noteq> Inl StopIteration \<and>
      (all_fit block_size xss \<longrightarrow>
         (\<exists>st. seed_loop files block_size names 0
             \<lparr>readers = [], current_blocks = [], heap = [], emitted = []\<rparr> = Inr st) \<and>
         (\<exists>popped. merge_trace files names block_size = Inr popped))) \<and>
   (files name = Some [] \<longrightarrow>
      seed_loop files block_size (name # rest) index st = Inl StopIteration)"
proof -
  let ?st0 = "\<lparr>readers = [], current_blocks = [], heap = [], emitted = []\<rparr>"
  have a: "\<forall>name\<in>set names. \<exists>xs. files' name = Some (write_lines xs) \<and> xs \<noteq> []"
    if g: "generate_runs lines memory_limit files = Inr (names, files')"
  proof
    fix name assume n: "name \<in> set names"
    from generate_runs_frontier [OF g, of 1] obtain rs where
      "frontier files' names (map sort rs) 1" by blast
    then have "list_all2 (run_file_of files') names (map sort rs)" by (simp add: frontier_def)
    with n obtain xs where "run_file_of files' name xs"
      by (auto simp: list_all2_conv_all_nth in_set_conv_nth)
    then show "\<exists>xs. files' name = Some (write_lines xs) \<and> xs \<noteq> []"
      by (auto simp: run_file_of_def)
  qed
  have b: "\<exists>ys. files' out = Some (write_lines ys) \<and> ys \<noteq> []"
    if h: "list_all2 (run_file_of files) names xss \<and> names \<noteq> [] \<and> block_size \<noteq> 0 \<and>
      merge_K_runs names block_size ident files = Inr (out, files')"
  proof -
    from h have la: "list_all2 (run_file_of files) names xss" and bs: "block_size \<noteq> 0"
      and mk: "merge_K_runs names block_size ident files = Inr (out, files')" by blast+
    from merge_K_runs_spec [OF la bs, of ident] mk
    have o: "files' out = Some (write_lines (sort (concat xss)))" by simp
    from h la obtain xs xss' where x: "xss = xs # xss'" by (cases xss) auto
    with la have "xs \<noteq> []" by (auto simp: list_all2_Cons2 run_file_of_def)
    with x have "concat xss \<noteq> []" by simp
    then have "sort (concat xss) \<noteq> []" by (metis length_sort length_0_conv)
    with o show ?thesis by blast
  qed
  have c: "seed_loop files block_size names 0 ?st0 \<noteq> Inl StopIteration \<and>
      (all_fit block_size xss \<longrightarrow>
         (\<exists>st. seed_loop files block_size names 0 ?st0 = Inr st) \<and>
         (\<exists>popped. merge_trace files names block_size = Inr popped))"
    if h: "list_all2 (run_file_of files) names xss \<and> block_size \<noteq> 0"
  proof -
    from h have la: "list_all2 (run_file_of files) names xss" and bs: "block_size \<noteq> 0"
      by blast+
    have 1: "seed_loop files block_size names 0 ?st0 \<noteq> Inl StopIteration"
      using seed_loop_error [OF la bs] by fastforce
    have 2: "\<exists>popped. merge_trace files names block_size = Inr popped"
      if "all_fit block_size xss"
      using merge_trace_inv [OF la bs] that
      by (cases "merge_trace files names block_size") auto
    have 3: "\<exists>st. seed_loop files block_size names 0 ?st0 = Inr st"
      if "all_fit block_size xss"
      using 2 [OF that] by (auto simp: merge_trace_def split: sum.splits)
    from 1 2 3 show ?thesis by blast
  qed
  have d: "seed_loop files block_size (name # rest) index st = Inl StopIteration"
    if "files name = Some []"
    using that by (rule seed_loop_empty_file)
  from a b c d show ?thesis by blast
qed

text \<open>The two run files of the examples, and a directory with an empty run file.\<close>

theorem runs_nonempty_witness:
  "(\<exists>popped. merge_trace two_runs [run_filename 1, run_filename 2] 2 = Inr popped) \<and>
   seed_loop two_runs 2 [run_filename 1, run_filename 2] 0
      \<lparr>readers = [], current_blocks = [], heap = [], emitted = []\<rparr> \<noteq> Inl StopIteration \<and>
   seed_loop [''run1.txt'' \<mapsto> []] 2 [''run1.txt''] 0
      \<lparr>readers = [], current_blocks = [], heap = [], emitted = []\<rparr> = Inl StopIteration"
proof -
  have b: "(2::int) \<noteq> 0" by simp
  have e: "[''run1.txt'' \<mapsto> []] ''run1.txt'' = Some []" by simp
  from runs_nonempty [of _ _ two_runs "[run_filename 1, run_filename 2]" _ "[[3, 5], [3]]" 2]
    two_runs_files two_runs_fit b
  have 1: "\<exists>popped. merge_trace two_runs [run_filename 1, run_filename 2] 2 = Inr popped"
    and 2: "seed_loop two_runs 2 [run_filename 1, run_filename 2] 0
      \<lparr>readers = [], current_blocks = [], heap = [], emitted = []\<rparr> \<noteq> Inl StopIteration"
    by blast+
  from runs_nonempty [of _ _ "[''run1.txt'' \<mapsto> []]" _ _ _ 2 _ _ "''run1.txt''" "[]" 0
      "\<lparr>readers = [], current_blocks = [], heap = [], emitted = []\<rparr>"] e
  have 3: "seed_loop [''run1.txt'' \<mapsto> []] 2 [''run1.txt''] 0
      \<lparr>readers = [], current_blocks = [], heap = [], emitted = []\<rparr> = Inl StopIteration"
    by blast
  from 1 2 3 show ?thesis by blast
qed

text \<open>
  The claim fails on the input \<open>12, 7\<close> with a budget of 120 bytes and blocks of 2
  characters: both run files have a record, and the seeding loop pops from the empty
  list.
\<close>

theorem runs_nonempty_counterexample:
  "(case generate_runs [''12'', ''7''] (120 div 3) Map.empty of
      Inl e \<Rightarrow> False
    | Inr (runs, files1) \<Rightarrow>
        map files1 runs = [Some (write_lines [12]), Some (write_lines [7])] \<and>
        seed_loop files1 2 runs 0 \<lparr>readers = [], current_blocks = [], heap = [], emitted = []\<rparr>
          = Inl IndexError) \<and>
   (case external_merge_sort [''12'', ''7''] 120 2 Map.empty of
      Some (Inl e) \<Rightarrow> e = IndexError
    | _ \<Rightarrow> False)"
  by code_simp

end
